theory Spec2Isabelle
  imports Main "HOL-Library.Multiset"
begin

section \<open>Grids\<close>

text \<open>
  The board is an array of 81 numbers, \<open>0\<close> standing for an empty cell. It is a list
  of integers here. Reading a JavaScript array past its end gives \<open>undefined\<close>, which is
  strictly equal to no number; \<open>cell\<close> makes that case explicit, so that the test
  \<^verbatim>\<open>g[i] === v\<close> of the source is \<open>cell g i = Some v\<close>.
\<close>

type_synonym grid = "int list"

definition cell :: "grid \<Rightarrow> nat \<Rightarrow> int option" where
  "cell g i = (if i < length g then Some (g ! i) else None)"

text \<open>
  Index \<open>i\<close> lies in row \<open>i div 9\<close>, column \<open>i mod 9\<close> and block
  \<open>(row div 3) * 3 + col div 3\<close>. Two indices share a unit when they agree on one of
  the three.
\<close>

definition rowOf :: "nat \<Rightarrow> nat" where
  "rowOf i = i div 9"

definition colOf :: "nat \<Rightarrow> nat" where
  "colOf i = i mod 9"

definition blockOf :: "nat \<Rightarrow> nat" where
  "blockOf i = (rowOf i div 3) * 3 + colOf i div 3"

definition sameUnit :: "nat \<Rightarrow> nat \<Rightarrow> bool" where
  "sameUnit i j = (rowOf i = rowOf j \<or> colOf i = colOf j \<or> blockOf i = blockOf j)"


section \<open>The validator and the backtracking solver\<close>

text \<open>
  \<open>findEmpty\<close>, \<open>valid\<close> and \<open>backtrack\<close> are the three closures of \<open>solve\<close>; the
  array \<open>g\<close> they share is passed explicitly and returned by \<open>backtrack\<close> together with
  its boolean result. \<open>findEmpty\<close> returns \<open>None\<close> where the source returns \<open>-1\<close>.
  The loop \<^verbatim>\<open>for (let n = 1; n <= 9; n++)\<close> of \<open>backtrack\<close> is \<open>tryFrom pos n g\<close>,
  entered at \<open>n = 1\<close> with the index that \<open>findEmpty\<close> returned. That index lies inside
  the array, where the assignment \<^verbatim>\<open>g[pos] = n\<close> is the list update \<open>g[pos := n]\<close>.
\<close>

definition findEmpty :: "grid \<Rightarrow> nat option" where
  "findEmpty g = List.find (\<lambda>i. cell g i = Some 0) [0..<81]"

definition valid :: "grid \<Rightarrow> nat \<Rightarrow> int \<Rightarrow> bool" where
  "valid g pos val =
     (let r = pos div 9; c = pos mod 9; br = r div 3; bc = c div 3 in
        list_all (\<lambda>i. cell g (r * 9 + i) \<noteq> Some val \<and> cell g (i * 9 + c) \<noteq> Some val) [0..<9] \<and>
        list_all (\<lambda>rr. list_all (\<lambda>cc. cell g (rr * 9 + cc) \<noteq> Some val) [bc * 3..<bc * 3 + 3])
          [br * 3..<br * 3 + 3])"

function backtrack :: "grid \<Rightarrow> bool \<times> grid"
  and tryFrom :: "nat \<Rightarrow> int \<Rightarrow> grid \<Rightarrow> bool \<times> grid" where
  "backtrack g =
     (case findEmpty g of
        None \<Rightarrow> (True, g)
      | Some pos \<Rightarrow> tryFrom pos 1 g)"
| "tryFrom pos n g =
     (if n \<le> 9 then
        (if \<not> valid g pos n then tryFrom pos (n + 1) g
         else (case backtrack (g[pos := n]) of
                 (True, g') \<Rightarrow> (True, g')
               | (False, g') \<Rightarrow> tryFrom pos (n + 1) (g'[pos := 0])))
      else (False, g))"
  by pat_completeness auto


text \<open>
  The recursion is nested: the grid on which the loop continues is the one the
  recursive call returned. Termination therefore rests on the fact that a failed
  search hands the grid back as it received it, proved first on the domain of the
  function. The measure is the number of empty cells.
\<close>

definition emptyCount :: "grid \<Rightarrow> nat" where
  "emptyCount g = length (filter (\<lambda>v. v = 0) g)"

lemma findEmpty_Some:
  assumes "findEmpty g = Some pos"
  shows "pos < 81" and "pos < length g" and "g ! pos = 0"
proof -
  from assms have "pos \<in> set [0..<81] \<and> cell g pos = Some 0"
    unfolding findEmpty_def by (auto simp: find_Some_iff)
  then show "pos < 81" and "pos < length g" and "g ! pos = 0"
    by (auto simp: cell_def split: if_splits)
qed

lemma valid_own_cell:
  assumes "pos < length g" and "valid g pos (g ! pos)"
  shows False
proof -
  have "pos mod 9 \<in> set [0..<9]" by simp
  moreover from assms(2) have
    "list_all (\<lambda>i. cell g (pos div 9 * 9 + i) \<noteq> Some (g ! pos)) [0..<9]"
    by (simp add: valid_def Let_def list_all_iff)
  ultimately have "cell g (pos div 9 * 9 + pos mod 9) \<noteq> Some (g ! pos)"
    unfolding list_all_iff by blast
  with assms(1) show False by (simp add: cell_def)
qed

lemma emptyCount_update_le: "emptyCount (g[pos := v]) \<le> Suc (emptyCount g)"
proof (induction g arbitrary: pos)
  case Nil
  then show ?case by (simp add: emptyCount_def)
next
  case (Cons a g)
  then show ?case
  proof (cases pos)
    case 0
    then show ?thesis by (simp add: emptyCount_def)
  next
    case (Suc k)
    with Cons.IH [of k] show ?thesis by (simp add: emptyCount_def)
  qed
qed

lemma emptyCount_fill:
  "pos < length g \<Longrightarrow> g ! pos = 0 \<Longrightarrow> v \<noteq> 0 \<Longrightarrow> Suc (emptyCount (g[pos := v])) = emptyCount g"
proof (induction g arbitrary: pos)
  case Nil
  then show ?case by simp
next
  case (Cons a g)
  then show ?case
  proof (cases pos)
    case 0
    with Cons.prems show ?thesis by (simp add: emptyCount_def)
  next
    case (Suc k)
    with Cons.prems Cons.IH [of k] show ?thesis by (simp add: emptyCount_def)
  qed
qed

lemma emptyCount_clear:
  "pos < length g \<Longrightarrow> g ! pos \<noteq> 0 \<Longrightarrow> emptyCount (g[pos := 0]) = Suc (emptyCount g)"
proof (induction g arbitrary: pos)
  case Nil
  then show ?case by simp
next
  case (Cons a g)
  then show ?case
  proof (cases pos)
    case 0
    with Cons.prems show ?thesis by (simp add: emptyCount_def)
  next
    case (Suc k)
    with Cons.prems Cons.IH [of k] show ?thesis by (simp add: emptyCount_def)
  qed
qed

lemma failed_search_restores_dom:
  "backtrack_tryFrom_dom (Inl g) \<Longrightarrow> \<not> fst (backtrack g) \<longrightarrow> snd (backtrack g) = g"
  "backtrack_tryFrom_dom (Inr (pos, n, g)) \<Longrightarrow>
     \<not> fst (tryFrom pos n g) \<longrightarrow> snd (tryFrom pos n g) = g \<or> snd (tryFrom pos n g) = g[pos := 0]"
proof (induction g and pos n g rule: backtrack_tryFrom.pinduct)
  case (1 g)
  show ?case
  proof (cases "findEmpty g")
    case None
    with 1(1) show ?thesis by (simp add: backtrack.psimps)
  next
    case (Some p)
    from findEmpty_Some [OF Some] have "g[p := 0] = g" by (simp add: list_update_same_conv)
    with 1(2) [OF Some] 1(1) Some show ?thesis by (simp add: backtrack.psimps)
  qed
next
  case (2 pos n g)
  show ?case
  proof (cases "n \<le> 9")
    case False
    with 2(1) show ?thesis by (simp add: tryFrom.psimps)
  next
    case le: True
    show ?thesis
    proof (cases "valid g pos n")
      case False
      with 2(1) 2(2) le show ?thesis by (simp add: tryFrom.psimps)
    next
      case ok: True
      obtain x y where bt: "backtrack (g[pos := n]) = (x, y)" by (cases "backtrack (g[pos := n])")
      show ?thesis
      proof (cases x)
        case True
        with 2(1) le ok bt show ?thesis by (simp add: tryFrom.psimps)
      next
        case False
        from 2(3) le ok bt False have y: "y = g[pos := n]" by simp
        from 2(4) [of x y] le ok bt False
        have "\<not> fst (tryFrom pos (n + 1) (y[pos := 0])) \<longrightarrow>
              snd (tryFrom pos (n + 1) (y[pos := 0])) = y[pos := 0] \<or>
              snd (tryFrom pos (n + 1) (y[pos := 0])) = y[pos := 0, pos := 0]" by simp
        moreover have "tryFrom pos n g = tryFrom pos (n + 1) (y[pos := 0])"
          using 2(1) le ok bt False by (simp add: tryFrom.psimps)
        ultimately show ?thesis by (simp add: y)
      qed
    qed
  qed
qed

definition searchMeasure :: "grid + nat \<times> int \<times> grid \<Rightarrow> nat \<times> nat \<times> nat" where
  "searchMeasure x =
     (case x of
        Inl g \<Rightarrow> (emptyCount g, 1, 0)
      | Inr (pos, n, g) \<Rightarrow>
          if pos < length g \<and> g ! pos = 0 then (emptyCount g, 0, nat (10 - n))
          else (Suc (emptyCount g), 2, nat (10 - n)))"

lemma search_total: "All backtrack_tryFrom_dom"
proof (relation "inv_image (less_than <*lex*> less_than <*lex*> less_than) searchMeasure")
  show "wf (inv_image (less_than <*lex*> less_than <*lex*> less_than) searchMeasure)"
    by (intro wf_inv_image wf_lex_prod wf_less_than)
next
  fix g pos
  assume "findEmpty g = Some pos"
  from findEmpty_Some [OF this]
  show "(Inr (pos, 1, g), Inl g) \<in> inv_image (less_than <*lex*> less_than <*lex*> less_than) searchMeasure"
    by (simp add: searchMeasure_def)
next
  fix pos n g
  assume "n \<le> 9" "\<not> valid g pos n"
  then show "(Inr (pos, n + 1, g), Inr (pos, n, g)) \<in>
      inv_image (less_than <*lex*> less_than <*lex*> less_than) searchMeasure"
    by (simp add: searchMeasure_def)
next
  fix pos n g
  assume le: "n \<le> 9" and ok: "\<not> \<not> valid g pos n"
  show "(Inl (g[pos := n]), Inr (pos, n, g)) \<in>
      inv_image (less_than <*lex*> less_than <*lex*> less_than) searchMeasure"
  proof (cases "pos < length g \<and> g ! pos = 0")
    case True
    with ok valid_own_cell [of pos g] have "n \<noteq> 0" by auto
    with True emptyCount_fill [of pos g n] show ?thesis
      by (auto simp: searchMeasure_def)
  next
    case False
    with emptyCount_update_le [of g pos n] show ?thesis
      by (auto simp: searchMeasure_def)
  qed
next
  fix pos n g x y
  assume le: "n \<le> 9" and ok: "\<not> \<not> valid g pos n"
    and bt: "(x, y) = backtrack (g[pos := n])" and x: "x = False"
    and dom: "backtrack_tryFrom_dom (Inl (g[pos := n]))"
  from failed_search_restores_dom(1) [OF dom] bt x have y: "y = g[pos := n]"
    by (metis fst_conv snd_conv)
  show "(Inr (pos, n + 1, y[pos := 0]), Inr (pos, n, g)) \<in>
      inv_image (less_than <*lex*> less_than <*lex*> less_than) searchMeasure"
  proof (cases "pos < length g")
    case False
    then have "g[pos := 0] = g" by (simp add: list_update_beyond)
    with False le show ?thesis by (simp add: y searchMeasure_def)
  next
    case True
    show ?thesis
    proof (cases "g ! pos = 0")
      case True
      with \<open>pos < length g\<close> have "g[pos := 0] = g" by (simp add: list_update_same_conv)
      with True \<open>pos < length g\<close> le show ?thesis by (simp add: y searchMeasure_def)
    next
      case False
      with \<open>pos < length g\<close> emptyCount_clear [of pos g] le show ?thesis
        by (simp add: y searchMeasure_def)
    qed
  qed
qed

termination backtrack
  by (rule search_total)

declare backtrack.simps [simp del] tryFrom.simps [simp del]

text \<open>\<open>solve\<close> copies its argument (\<^verbatim>\<open>grid.slice()\<close>), searches on the copy and returns
  the copy or \<open>null\<close> (\<open>None\<close>).\<close>

definition solve :: "grid \<Rightarrow> grid option" where
  "solve grid = (let (solvable, g) = backtrack grid in if solvable then Some g else None)"

section \<open>The conflict detector\<close>

text \<open>
  \<open>updateConflicts\<close> first removes the mark \<open>conflict\<close> from all 81 cells and then marks
  cell \<open>i\<close> when its value is truthy and some other cell scanned in its row, its column
  or its block holds the same value. The result is the list of the 81 marks.
\<close>

definition cellConflict :: "grid \<Rightarrow> nat \<Rightarrow> bool" where
  "cellConflict st i =
     (case cell st i of
        None \<Rightarrow> False
      | Some val \<Rightarrow>
          val \<noteq> 0 \<and>
          (let r = i div 9; c = i mod 9; br = r div 3; bc = c div 3 in
             list_ex (\<lambda>j. (r * 9 + j \<noteq> i \<and> cell st (r * 9 + j) = Some val) \<or>
                          (j * 9 + c \<noteq> i \<and> cell st (j * 9 + c) = Some val)) [0..<9] \<or>
             list_ex (\<lambda>rr. list_ex (\<lambda>cc. rr * 9 + cc \<noteq> i \<and> cell st (rr * 9 + cc) = Some val)
                               [bc * 3..<bc * 3 + 3])
               [br * 3..<br * 3 + 3]))"

definition updateConflicts :: "grid \<Rightarrow> bool list" where
  "updateConflicts st = map (cellConflict st) [0..<81]"

section \<open>Arithmetic of rows, columns and blocks\<close>

lemma div3_iff: "(x::nat) div 3 = b \<longleftrightarrow> b * 3 \<le> x \<and> x < b * 3 + 3"
  by arith

lemma pair3_eq: "(b::nat) < 3 \<Longrightarrow> b' < 3 \<Longrightarrow> a * 3 + b = a' * 3 + b' \<longleftrightarrow> a = a' \<and> b = b'"
  by arith

lemma blockOf_eq_iff:
  "blockOf i = blockOf j \<longleftrightarrow> rowOf i div 3 = rowOf j div 3 \<and> colOf i div 3 = colOf j div 3"
proof -
  have "colOf i div 3 < 3" "colOf j div 3 < 3" by (simp_all add: colOf_def)
  then show ?thesis unfolding blockOf_def by (rule pair3_eq)
qed

lemma rowOf_rc [simp]: "cc < 9 \<Longrightarrow> rowOf (rr * 9 + cc) = rr"
  by (simp add: rowOf_def)

lemma colOf_rc [simp]: "cc < 9 \<Longrightarrow> colOf (rr * 9 + cc) = cc"
  by (simp add: colOf_def)

lemma rc_decomp: "rowOf k * 9 + colOf k = k"
  by (simp add: rowOf_def colOf_def)

lemma rowOf_less: "k < 81 \<Longrightarrow> rowOf k < 9"
  by (simp add: rowOf_def)

lemma colOf_less: "colOf k < 9"
  by (simp add: colOf_def)

lemma rc_less: "rr < 9 \<Longrightarrow> cc < 9 \<Longrightarrow> rr * 9 + cc < (81::nat)"
  by simp

lemma valid_scans:
  "valid g pos v \<longleftrightarrow>
     (\<forall>i<9. cell g (rowOf pos * 9 + i) \<noteq> Some v \<and> cell g (i * 9 + colOf pos) \<noteq> Some v) \<and>
     (\<forall>rr cc. rowOf pos div 3 * 3 \<le> rr \<and> rr < rowOf pos div 3 * 3 + 3 \<and>
              colOf pos div 3 * 3 \<le> cc \<and> cc < colOf pos div 3 * 3 + 3 \<longrightarrow>
              cell g (rr * 9 + cc) \<noteq> Some v)"
  by (auto simp: valid_def Let_def list_all_iff rowOf_def colOf_def)

lemma unit_scan:
  assumes "pos < 81"
  shows "((\<exists>i<9. P (rowOf pos * 9 + i) \<or> P (i * 9 + colOf pos)) \<or>
          (\<exists>rr cc. rowOf pos div 3 * 3 \<le> rr \<and> rr < rowOf pos div 3 * 3 + 3 \<and>
                   colOf pos div 3 * 3 \<le> cc \<and> cc < colOf pos div 3 * 3 + 3 \<and> P (rr * 9 + cc)))
         \<longleftrightarrow> (\<exists>k<81. sameUnit pos k \<and> P k)"
    (is "?scan \<longleftrightarrow> ?unit")
proof
  assume ?unit
  then obtain k where k: "k < 81" and u: "sameUnit pos k" and p: "P k" by blast
  from u consider "rowOf k = rowOf pos" | "colOf k = colOf pos" | "blockOf pos = blockOf k"
    by (auto simp: sameUnit_def)
  then show ?scan
  proof cases
    case 1
    with rc_decomp [of k] p have "P (rowOf pos * 9 + colOf k)" by simp
    with colOf_less [of k] show ?thesis by blast
  next
    case 2
    with rc_decomp [of k] p have "P (rowOf k * 9 + colOf pos)" by simp
    with rowOf_less [OF k] show ?thesis by blast
  next
    case 3
    then have "rowOf pos div 3 * 3 \<le> rowOf k \<and> rowOf k < rowOf pos div 3 * 3 + 3"
      and "colOf pos div 3 * 3 \<le> colOf k \<and> colOf k < colOf pos div 3 * 3 + 3"
      using div3_iff [of "rowOf k" "rowOf pos div 3"] div3_iff [of "colOf k" "colOf pos div 3"]
      by (simp_all add: blockOf_eq_iff)
    moreover from p have "P (rowOf k * 9 + colOf k)" by (simp add: rc_decomp)
    ultimately show ?thesis by blast
  qed
next
  have r9: "rowOf pos < 9" using assms by (rule rowOf_less)
  assume ?scan
  then consider i where "i < 9" "P (rowOf pos * 9 + i)"
    | i where "i < 9" "P (i * 9 + colOf pos)"
    | rr cc where "rowOf pos div 3 * 3 \<le> rr \<and> rr < rowOf pos div 3 * 3 + 3"
        "colOf pos div 3 * 3 \<le> cc \<and> cc < colOf pos div 3 * 3 + 3" "P (rr * 9 + cc)"
    by blast
  then show ?unit
  proof cases
    case 1
    have "rowOf pos * 9 + i < 81" using r9 1(1) by (rule rc_less)
    moreover have "sameUnit pos (rowOf pos * 9 + i)" using 1(1) by (simp add: sameUnit_def)
    ultimately show ?thesis using 1(2) by blast
  next
    case 2
    have "i * 9 + colOf pos < 81" using 2(1) colOf_less by (rule rc_less)
    moreover have "sameUnit pos (i * 9 + colOf pos)" by (simp add: sameUnit_def colOf_less)
    ultimately show ?thesis using 2(2) by blast
  next
    case 3
    from 3(1,2) have rb: "rr div 3 = rowOf pos div 3" and cb: "cc div 3 = colOf pos div 3"
      by (simp_all add: div3_iff)
    have "colOf pos div 3 < 3" "rowOf pos div 3 < 3" using r9 by (simp_all add: colOf_def)
    with rb cb have cc9: "cc < 9" and rr9: "rr < 9" by simp_all
    have "rr * 9 + cc < 81" using rr9 cc9 by (rule rc_less)
    moreover have "sameUnit pos (rr * 9 + cc)"
      using rb cb cc9 by (simp add: sameUnit_def blockOf_eq_iff)
    ultimately show ?thesis using 3(3) by blast
  qed
qed

lemma valid_iff:
  assumes "pos < 81"
  shows "valid g pos v \<longleftrightarrow> (\<forall>k<81. sameUnit pos k \<longrightarrow> cell g k \<noteq> Some v)"
proof -
  have "valid g pos v \<longleftrightarrow>
     \<not> ((\<exists>i<9. cell g (rowOf pos * 9 + i) = Some v \<or> cell g (i * 9 + colOf pos) = Some v) \<or>
        (\<exists>rr cc. rowOf pos div 3 * 3 \<le> rr \<and> rr < rowOf pos div 3 * 3 + 3 \<and>
                 colOf pos div 3 * 3 \<le> cc \<and> cc < colOf pos div 3 * 3 + 3 \<and>
                 cell g (rr * 9 + cc) = Some v))"
    unfolding valid_scans by blast
  also have "\<dots> \<longleftrightarrow> \<not> (\<exists>k<81. sameUnit pos k \<and> cell g k = Some v)"
    by (simp only: unit_scan [OF assms, where P = "\<lambda>k. cell g k = Some v"])
  finally show ?thesis by blast
qed

section \<open>What the validator tests\<close>

text \<open>The reference solution of the specification.\<close>

definition reference :: grid where
  "reference =
     [5,3,4,6,7,8,9,1,2, 6,7,2,1,9,5,3,4,8, 1,9,8,3,4,2,5,6,7,
      8,5,9,7,6,1,4,2,3, 4,2,6,8,5,3,7,9,1, 7,1,3,9,2,4,8,5,6,
      9,6,1,5,3,7,2,8,4, 2,8,7,4,1,9,6,3,5, 3,4,5,2,8,6,1,7,9]"

text \<open>
  \<open>occursInUnits g pos v\<close>: some cell of the row, the column or the block of \<open>pos\<close>
  holds \<open>v\<close>, the cell at \<open>pos\<close> counted. \<open>occursElsewhere g pos v\<close>: some such cell
  other than \<open>pos\<close> holds \<open>v\<close>.
\<close>

definition occursInUnits :: "grid \<Rightarrow> nat \<Rightarrow> int \<Rightarrow> bool" where
  "occursInUnits g pos v = list_ex (\<lambda>k. sameUnit pos k \<and> cell g k = Some v) [0..<81]"

definition occursElsewhere :: "grid \<Rightarrow> nat \<Rightarrow> int \<Rightarrow> bool" where
  "occursElsewhere g pos v =
     list_ex (\<lambda>k. k \<noteq> pos \<and> sameUnit pos k \<and> cell g k = Some v) [0..<81]"

lemma occursInUnits_iff:
  "occursInUnits g pos v \<longleftrightarrow> (\<exists>k<81. sameUnit pos k \<and> cell g k = Some v)"
  by (auto simp: occursInUnits_def list_ex_iff)

lemma occursElsewhere_iff:
  "occursElsewhere g pos v \<longleftrightarrow> (\<exists>k<81. k \<noteq> pos \<and> sameUnit pos k \<and> cell g k = Some v)"
  by (auto simp: occursElsewhere_def list_ex_iff)

lemma sameUnit_refl: "sameUnit i i"
  by (simp add: sameUnit_def)

lemma valid_occurs: "pos < 81 \<Longrightarrow> valid g pos v \<longleftrightarrow> \<not> occursInUnits g pos v"
  by (auto simp: valid_iff occursInUnits_iff)

lemma valid_occurs_elsewhere:
  assumes "pos < 81" and "cell g pos \<noteq> Some v"
  shows "valid g pos v \<longleftrightarrow> \<not> occursElsewhere g pos v"
proof -
  have "occursInUnits g pos v \<longleftrightarrow> occursElsewhere g pos v"
    unfolding occursInUnits_iff occursElsewhere_iff using assms(2) by metis
  with valid_occurs [OF assms(1)] show ?thesis by simp
qed

lemma valid_rejects_stored_value:
  assumes "pos < 81" and "cell g pos = Some v"
  shows "\<not> valid g pos v"
proof -
  from assms sameUnit_refl [of pos] have "occursInUnits g pos v"
    unfolding occursInUnits_iff by blast
  with valid_occurs [OF assms(1)] show ?thesis by simp
qed

lemma reference_emptied_cells_pass:
  "list_all (\<lambda>i. valid (reference[i := 0]) i (reference ! i)) [0..<81]"
  by code_simp

lemma reference_no_conflicts: "\<not> list_ex (\<lambda>b. b) (updateConflicts reference)"
  by code_simp

text \<open>
  Claim C4, as the code has it. For every grid, every index below 81 and every value,
  \<open>valid\<close> returns false exactly when the value occurs at some cell of the row, the
  column or the block of the index, the cell at the index itself included. When the
  cell at the index does not hold the value (the solver calls \<open>valid\<close> on empty cells
  only) this is: false exactly when the value occurs at another cell of those units.
  A value stored at the index makes the test fail. On the reference solution the
  validator passes for every cell once that cell is emptied, and the conflict detector
  marks no cell.
\<close>

theorem valid_scans_whole_units:
  "pos < 81 \<Longrightarrow>
     (valid g pos v \<longleftrightarrow> \<not> occursInUnits g pos v) \<and>
     (cell g pos \<noteq> Some v \<longrightarrow> (valid g pos v \<longleftrightarrow> \<not> occursElsewhere g pos v)) \<and>
     (cell g pos = Some v \<longrightarrow> \<not> valid g pos v) \<and>
     list_all (\<lambda>i. valid (reference[i := 0]) i (reference ! i)) [0..<81] \<and>
     \<not> list_ex (\<lambda>b. b) (updateConflicts reference)"
  using valid_occurs [of pos g v] valid_occurs_elsewhere [of pos g v]
    valid_rejects_stored_value [of pos g v]
    reference_emptied_cells_pass reference_no_conflicts
  by blast

theorem valid_scans_whole_units_witness:
  "valid (reference[0 := 0]) 0 5 \<and> \<not> occursElsewhere (reference[0 := 0]) 0 5"
proof -
  have pos: "(0::nat) < 81" by simp
  have c: "cell (reference[0 := 0]) 0 \<noteq> Some 5" by code_simp
  have e: "\<not> occursElsewhere (reference[0 := 0]) 0 5" by code_simp
  from valid_scans_whole_units [OF pos, of "reference[0 := 0]" 5] c e show ?thesis
    by blast
qed

text \<open>
  The claim as the specification words it fails on the reference solution: cell 0 holds
  5, which occurs at no other cell of its row, column or block, and \<open>valid\<close> rejects 5
  at index 0 all the same.
\<close>

theorem valid_own_value_counterexample:
  "cell reference 0 = Some 5 \<and> \<not> occursElsewhere reference 0 5 \<and> \<not> valid reference 0 5"
  by code_simp


section \<open>What the conflict detector marks\<close>

lemma list_ex_upt_less: "list_ex Q [0..<n] \<longleftrightarrow> (\<exists>j<n. Q j)"
  by (auto simp: list_ex_iff)

lemma list_ex_upt_square:
  "list_ex (\<lambda>rr. list_ex (\<lambda>cc. Q rr cc) [a..<b]) [c..<d] \<longleftrightarrow>
     (\<exists>rr cc. c \<le> rr \<and> rr < d \<and> a \<le> cc \<and> cc < b \<and> Q rr cc)"
  unfolding list_ex_iff set_upt atLeastLessThan_iff Bex_def by blast

lemma cellConflict_scans:
  "cellConflict st i \<longleftrightarrow>
     (\<exists>val. cell st i = Some val \<and> val \<noteq> 0 \<and>
        ((\<exists>j<9. (rowOf i * 9 + j \<noteq> i \<and> cell st (rowOf i * 9 + j) = Some val) \<or>
                 (j * 9 + colOf i \<noteq> i \<and> cell st (j * 9 + colOf i) = Some val)) \<or>
         (\<exists>rr cc. rowOf i div 3 * 3 \<le> rr \<and> rr < rowOf i div 3 * 3 + 3 \<and>
                  colOf i div 3 * 3 \<le> cc \<and> cc < colOf i div 3 * 3 + 3 \<and>
                  (rr * 9 + cc \<noteq> i \<and> cell st (rr * 9 + cc) = Some val))))"
proof (cases "cell st i")
  case None
  then show ?thesis by (simp add: cellConflict_def)
next
  case (Some val)
  then show ?thesis
    unfolding cellConflict_def Let_def list_ex_upt_less list_ex_upt_square rowOf_def colOf_def
    by simp
qed

lemma cellConflict_iff:
  assumes "i < 81"
  shows "cellConflict st i \<longleftrightarrow>
     (\<exists>val. cell st i = Some val \<and> val \<noteq> 0 \<and> occursElsewhere st i val)"
proof -
  have "((\<exists>j<9. (rowOf i * 9 + j \<noteq> i \<and> cell st (rowOf i * 9 + j) = Some val) \<or>
                 (j * 9 + colOf i \<noteq> i \<and> cell st (j * 9 + colOf i) = Some val)) \<or>
         (\<exists>rr cc. rowOf i div 3 * 3 \<le> rr \<and> rr < rowOf i div 3 * 3 + 3 \<and>
                  colOf i div 3 * 3 \<le> cc \<and> cc < colOf i div 3 * 3 + 3 \<and>
                  (rr * 9 + cc \<noteq> i \<and> cell st (rr * 9 + cc) = Some val)))
        \<longleftrightarrow> (\<exists>k<81. sameUnit i k \<and> (k \<noteq> i \<and> cell st k = Some val))" for val
    using assms by (rule unit_scan)
  then show ?thesis
    unfolding cellConflict_scans occursElsewhere_iff by (simp only:) blast
qed

lemma updateConflicts_nth: "i < 81 \<Longrightarrow> updateConflicts st ! i = cellConflict st i"
  by (simp add: updateConflicts_def)

text \<open>\<open>duplicated st i\<close>: cell \<open>i\<close> holds a non-zero value that some other cell of its row,
  column or block holds too.\<close>

definition duplicated :: "grid \<Rightarrow> nat \<Rightarrow> bool" where
  "duplicated st i =
     (case cell st i of None \<Rightarrow> False | Some v \<Rightarrow> v \<noteq> 0 \<and> occursElsewhere st i v)"

lemma sameUnit_sym: "sameUnit i j \<Longrightarrow> sameUnit j i"
  by (auto simp: sameUnit_def)

lemma updateConflicts_duplicated:
  "i < 81 \<Longrightarrow> updateConflicts st ! i = duplicated st i"
  by (simp add: updateConflicts_nth cellConflict_iff duplicated_def split: option.split)

lemma duplicated_pair:
  assumes "i < 81" "j < 81" "j \<noteq> i" "sameUnit i j"
    and "cell st i = Some v" "v \<noteq> 0" "cell st j = cell st i"
  shows "duplicated st i \<and> duplicated st j"
proof -
  from assms have "occursElsewhere st i v"
    unfolding occursElsewhere_iff by metis
  moreover from assms sameUnit_sym [of i j] have "occursElsewhere st j v"
    unfolding occursElsewhere_iff by metis
  ultimately show ?thesis using assms(5,6,7) by (simp add: duplicated_def)
qed

text \<open>
  Claim C8. For every state grid and every index \<open>i\<close> of the board, the conflict
  detector marks \<open>i\<close> exactly when the cell holds a non-zero value and some other index of
  the same row, column or block holds the same value; so when two cells of a shared unit
  hold matching non-zero values, both are marked.
\<close>

theorem conflicts_exactly_duplicates:
  "i < 81 \<Longrightarrow>
     updateConflicts st ! i = duplicated st i \<and>
     (\<forall>j<81. j \<noteq> i \<and> sameUnit i j \<and> cell st i \<noteq> None \<and> cell st i \<noteq> Some 0 \<and>
             cell st j = cell st i \<longrightarrow>
             updateConflicts st ! i \<and> updateConflicts st ! j)"
proof (intro conjI allI impI)
  assume i: "i < 81"
  then show "updateConflicts st ! i = duplicated st i" by (rule updateConflicts_duplicated)
  fix j
  assume j: "j < 81"
    and h: "j \<noteq> i \<and> sameUnit i j \<and> cell st i \<noteq> None \<and> cell st i \<noteq> Some 0 \<and>
            cell st j = cell st i"
  then obtain v where v: "cell st i = Some v" "v \<noteq> 0" by auto
  from duplicated_pair [OF i j _ _ v] h have "duplicated st i \<and> duplicated st j" by simp
  with i j show "updateConflicts st ! i" and "updateConflicts st ! j"
    by (simp_all add: updateConflicts_duplicated)
qed

theorem conflicts_exactly_duplicates_witness:
  "updateConflicts (reference[1 := 5]) ! 0 \<and> updateConflicts (reference[1 := 5]) ! 1 \<and>
   duplicated (reference[1 := 5]) 0"
proof -
  have i: "(0::nat) < 81" and j: "(1::nat) < 81" by simp_all
  have h: "(1::nat) \<noteq> 0 \<and> sameUnit 0 1 \<and> cell (reference[1 := 5]) 0 \<noteq> None \<and>
           cell (reference[1 := 5]) 0 \<noteq> Some 0 \<and>
           cell (reference[1 := 5]) 1 = cell (reference[1 := 5]) 0"
    by code_simp
  from conflicts_exactly_duplicates [OF i, of "reference[1 := 5]"] j h show ?thesis
    by blast
qed


section \<open>What the solver returns\<close>

text \<open>
  \<open>complete g\<close>: none of the 81 cells is empty. \<open>preserves grid r\<close>: \<open>r\<close> has the length
  of \<open>grid\<close> and every non-zero cell of \<open>grid\<close> is unchanged in \<open>r\<close>.
  \<open>fillsLegally grid r\<close>: every cell that is empty in \<open>grid\<close> holds in \<open>r\<close> a value of
  1..9 that occurs at no other cell of its row, column and block. \<open>consistent g\<close>: no
  non-zero value occurs twice in a row, a column or a block (the conflict set is empty).
\<close>

definition complete :: "grid \<Rightarrow> bool" where
  "complete g = list_all (\<lambda>i. cell g i \<noteq> Some 0) [0..<81]"

definition preserves :: "grid \<Rightarrow> grid \<Rightarrow> bool" where
  "preserves grid r =
     (length r = length grid \<and>
      list_all (\<lambda>i. grid ! i = 0 \<or> r ! i = grid ! i) [0..<length grid])"

definition fillsLegally :: "grid \<Rightarrow> grid \<Rightarrow> bool" where
  "fillsLegally grid r =
     list_all (\<lambda>i. cell grid i = Some 0 \<longrightarrow>
                  1 \<le> r ! i \<and> r ! i \<le> 9 \<and> \<not> occursElsewhere r i (r ! i)) [0..<81]"

definition consistent :: "grid \<Rightarrow> bool" where
  "consistent g = list_all (\<lambda>i. \<not> duplicated g i) [0..<81]"

lemma findEmpty_None_iff: "findEmpty g = None \<longleftrightarrow> complete g"
  by (auto simp: findEmpty_def complete_def find_None_iff list_all_iff)

lemma failed_backtrack_restores: "backtrack g = (False, r) \<Longrightarrow> r = g"
  using failed_search_restores_dom(1) [of g] search_total by simp

lemma preserves_refl: "preserves g g"
  by (simp add: preserves_def list_all_iff)

lemma preserves_iff:
  "preserves g r \<longleftrightarrow> length r = length g \<and> (\<forall>i<length g. g ! i \<noteq> 0 \<longrightarrow> r ! i = g ! i)"
  by (auto simp: preserves_def list_all_iff)

lemma fillsLegally_iff:
  "fillsLegally g r \<longleftrightarrow>
     (\<forall>i<81. cell g i = Some 0 \<longrightarrow> 1 \<le> r ! i \<and> r ! i \<le> 9 \<and> \<not> occursElsewhere r i (r ! i))"
  by (auto simp: fillsLegally_def list_all_iff)

lemma fillsLegally_complete: "complete g \<Longrightarrow> fillsLegally g r"
  by (auto simp: fillsLegally_iff complete_def list_all_iff)

lemma place_step:
  assumes pos: "pos < 81" "pos < length g" "g ! pos = 0"
    and n: "1 \<le> n" "n \<le> 9" and ok: "valid g pos n"
    and p: "preserves (g[pos := n]) r" and f: "fillsLegally (g[pos := n]) r"
  shows "preserves g r \<and> fillsLegally g r"
proof
  from p have len: "length r = length g"
    and keep: "\<And>i. i < length g \<Longrightarrow> g[pos := n] ! i \<noteq> 0 \<Longrightarrow> r ! i = g[pos := n] ! i"
    by (simp_all add: preserves_iff)
  from keep [of pos] pos n have rpos: "r ! pos = n" by simp
  have keep': "r ! i = g ! i" if "i < length g" "g ! i \<noteq> 0" for i
  proof -
    from that pos have "i \<noteq> pos" by auto
    with keep [of i] that show ?thesis by simp
  qed
  then show "preserves g r" using len by (simp add: preserves_iff)
  from f have later: "\<And>i. i < 81 \<Longrightarrow> cell (g[pos := n]) i = Some 0 \<Longrightarrow>
      1 \<le> r ! i \<and> r ! i \<le> 9 \<and> \<not> occursElsewhere r i (r ! i)"
    by (simp add: fillsLegally_iff)
  from ok pos(1) have free: "\<And>k. k < 81 \<Longrightarrow> sameUnit pos k \<Longrightarrow> cell g k \<noteq> Some n"
    by (simp add: valid_iff)
  have "\<not> occursElsewhere r pos n"
  proof
    assume "occursElsewhere r pos n"
    then obtain k where k: "k < 81" "k \<noteq> pos" "sameUnit pos k" "cell r k = Some n"
      unfolding occursElsewhere_iff by blast
    from k(4) len have kl: "k < length g" and rk: "r ! k = n"
      by (auto simp: cell_def split: if_splits)
    show False
    proof (cases "g ! k = 0")
      case False
      with keep' [OF kl] rk kl have "cell g k = Some n" by (simp add: cell_def)
      with free [OF k(1,3)] show False by simp
    next
      case True
      with kl k(2) have "cell (g[pos := n]) k = Some 0" by (simp add: cell_def)
      from later [OF k(1) this] rk have "\<not> occursElsewhere r k n" by simp
      moreover from pos len rpos have "cell r pos = Some n" by (simp add: cell_def)
      ultimately show False
        unfolding occursElsewhere_iff using pos(1) k(2,3) sameUnit_sym by blast
    qed
  qed
  with rpos n have here: "1 \<le> r ! pos \<and> r ! pos \<le> 9 \<and> \<not> occursElsewhere r pos (r ! pos)"
    by simp
  show "fillsLegally g r"
    unfolding fillsLegally_iff
  proof (intro allI impI)
    fix i :: nat
    assume i: "i < 81" and e: "cell g i = Some 0"
    show "1 \<le> r ! i \<and> r ! i \<le> 9 \<and> \<not> occursElsewhere r i (r ! i)"
    proof (cases "i = pos")
      case True
      with here show ?thesis by simp
    next
      case False
      with e have "cell (g[pos := n]) i = Some 0" by (auto simp: cell_def split: if_splits)
      with later [OF i] show ?thesis by simp
    qed
  qed
qed

lemma search_sound:
  "backtrack g = (True, r) \<Longrightarrow> preserves g r \<and> complete r \<and> fillsLegally g r"
  "pos < 81 \<Longrightarrow> pos < length g \<Longrightarrow> g ! pos = 0 \<Longrightarrow> 1 \<le> n \<Longrightarrow> tryFrom pos n g = (True, r) \<Longrightarrow>
     preserves g r \<and> complete r \<and> fillsLegally g r"
proof (induction g and pos n g arbitrary: r and r rule: backtrack_tryFrom.induct)
  case (1 g)
  show ?case
  proof (cases "findEmpty g")
    case None
    with 1(2) have "r = g" by (simp add: backtrack.simps)
    with None show ?thesis
      by (simp add: preserves_refl findEmpty_None_iff fillsLegally_complete)
  next
    case (Some pos)
    with 1(2) have "tryFrom pos 1 g = (True, r)" by (simp add: backtrack.simps)
    with 1(1) [OF Some] findEmpty_Some [OF Some] show ?thesis by simp
  qed
next
  case (2 pos n g)
  from "2.prems"(5) have le: "n \<le> 9"
    by (cases "n \<le> 9") (simp_all add: tryFrom.simps [of pos n g])
  show ?case
  proof (cases "valid g pos n")
    case False
    with "2.prems" le have "tryFrom pos (n + 1) g = (True, r)"
      by (simp add: tryFrom.simps [of pos n g])
    with "2.IH"(1) [OF le False] "2.prems" show ?thesis by simp
  next
    case ok: True
    obtain x y where bt: "backtrack (g[pos := n]) = (x, y)" by (cases "backtrack (g[pos := n])")
    show ?thesis
    proof (cases x)
      case True
      with "2.prems"(5) le ok bt have "y = r" by (simp add: tryFrom.simps [of pos n g])
      with "2.IH"(2) [of r] le ok bt True
      have "preserves (g[pos := n]) r \<and> complete r \<and> fillsLegally (g[pos := n]) r" by simp
      with place_step [OF "2.prems"(1,2,3,4) le ok] show ?thesis by simp
    next
      case False
      with failed_backtrack_restores bt have "y = g[pos := n]" by simp
      with "2.prems"(2,3) have y0: "y[pos := 0] = g" by (simp add: list_update_same_conv)
      from "2.prems"(5) le ok bt False y0 have "tryFrom pos (n + 1) g = (True, r)"
        by (simp add: tryFrom.simps [of pos n g])
      moreover from "2.IH"(3) [of x y r] le ok bt False y0 "2.prems"
      have "tryFrom pos (n + 1) g = (True, r) \<Longrightarrow>
              preserves g r \<and> complete r \<and> fillsLegally g r" by simp
      ultimately show ?thesis by simp
    qed
  qed
qed

lemma consistent_iff: "consistent g \<longleftrightarrow> (\<forall>i<81. \<not> duplicated g i)"
  by (auto simp: consistent_def list_all_iff)

lemma duplicated_iff:
  "duplicated g i \<longleftrightarrow> (\<exists>v. cell g i = Some v \<and> v \<noteq> 0 \<and> occursElsewhere g i v)"
  by (simp add: duplicated_def split: option.split)

lemma cell_SomeD: "cell g i = Some v \<Longrightarrow> i < length g \<and> g ! i = v"
  by (auto simp: cell_def split: if_splits)

lemma consistent_result:
  assumes p: "preserves g r" and f: "fillsLegally g r" and c: "consistent g"
  shows "consistent r"
  unfolding consistent_iff
proof (intro allI impI notI)
  fix i :: nat
  assume i: "i < 81" and d: "duplicated r i"
  from p have len: "length r = length g"
    and keep: "\<And>j. j < length g \<Longrightarrow> g ! j \<noteq> 0 \<Longrightarrow> r ! j = g ! j"
    by (simp_all add: preserves_iff)
  from f have legal: "\<And>j. j < 81 \<Longrightarrow> cell g j = Some 0 \<Longrightarrow> \<not> occursElsewhere r j (r ! j)"
    by (simp add: fillsLegally_iff)
  from d obtain v k where v: "cell r i = Some v" "v \<noteq> 0"
    and k: "k < 81" "k \<noteq> i" "sameUnit i k" "cell r k = Some v"
    unfolding duplicated_iff occursElsewhere_iff by blast
  from cell_SomeD [OF v(1)] cell_SomeD [OF k(4)] len
  have il: "i < length g" "r ! i = v" and kl: "k < length g" "r ! k = v" by simp_all
  have oi: "occursElsewhere r i (r ! i)"
    unfolding occursElsewhere_iff using k il by blast
  have ok: "occursElsewhere r k (r ! k)"
    unfolding occursElsewhere_iff using i k(2,3) v(1) kl sameUnit_sym by blast
  from legal [OF i] oi il have gi: "g ! i \<noteq> 0" by (auto simp: cell_def)
  from legal [OF k(1)] ok kl have gk: "g ! k \<noteq> 0" by (auto simp: cell_def)
  from keep [OF il(1) gi] keep [OF kl(1) gk] il kl
  have "cell g i = Some v" "cell g k = Some v" by (simp_all add: cell_def)
  with v(2) k have "duplicated g i"
    unfolding duplicated_iff occursElsewhere_iff by blast
  with c i show False by (simp add: consistent_iff)
qed


lemma consistent_updateConflicts:
  "consistent g \<longleftrightarrow> \<not> list_ex (\<lambda>b. b) (updateConflicts g)"
proof -
  have "list_ex (\<lambda>b. b) (updateConflicts g) \<longleftrightarrow> (\<exists>i<81. updateConflicts g ! i)"
    by (auto simp: list_ex_iff updateConflicts_def)
  also have "\<dots> \<longleftrightarrow> (\<exists>i<81. duplicated g i)"
    by (auto simp: updateConflicts_duplicated)
  finally show ?thesis by (simp add: consistent_iff)
qed

text \<open>
  Claim C1, as the code has it. For every input grid, \<open>solve\<close> returns \<open>null\<close> or a grid
  of the same length in which every originally non-zero cell is preserved verbatim, none
  of the 81 cells is empty, and every cell that was empty holds a value of 1..9 that no
  other cell of its row, column and block holds. Hence, when no non-zero value is
  duplicated within a row, column or block of the input, none is in the returned grid.
  Conflicts that the input already has are not looked for.
\<close>

theorem solve_sound:
  "solve grid = None \<or>
   (\<exists>r. solve grid = Some r \<and> preserves grid r \<and> complete r \<and> fillsLegally grid r \<and>
        (consistent grid \<longrightarrow> consistent r))"
proof (cases "backtrack grid")
  case (Pair solvable g)
  show ?thesis
  proof (cases solvable)
    case False
    with Pair show ?thesis by (simp add: solve_def)
  next
    case True
    with Pair search_sound(1) [of grid g]
    have "preserves grid g \<and> complete g \<and> fillsLegally grid g" by simp
    with Pair True consistent_result [of grid g] show ?thesis by (auto simp: solve_def)
  qed
qed

theorem solve_sound_witness:
  "solve (reference[80 := 0]) = Some reference \<and> complete reference \<and> consistent reference"
proof -
  have s: "solve (reference[80 := 0]) = Some reference" by code_simp
  have "\<not> list_ex (\<lambda>b. b) (updateConflicts (reference[80 := 0]))" by code_simp
  then have c: "consistent (reference[80 := 0])" using consistent_updateConflicts by blast
  from solve_sound [of "reference[80 := 0]"] s c show ?thesis by auto
qed

text \<open>
  The claim as the specification words it fails on a grid with a conflict of its own:
  the reference solution with a second 5 written next to the 5 of cell 0 and with cell 80
  emptied. The search fills cell 80 and returns the grid with both 5s in row 0.
\<close>

theorem solve_keeps_conflicts_counterexample:
  "solve (reference[1 := 5, 80 := 0]) = Some (reference[1 := 5]) \<and>
   reference[1 := 5] ! 0 = reference[1 := 5] ! 1 \<and>
   duplicated (reference[1 := 5]) 0"
  by code_simp


section \<open>The generator\<close>

text \<open>
  \<open>shuffle\<close> is the Fisher-Yates loop of the source. The index
  \<^verbatim>\<open>Math.floor(Math.random() * (i + 1))\<close> is some number of \<open>0..i\<close>; the model takes it
  from an arbitrary sequence \<open>rnd\<close> of naturals, reduced modulo \<open>i + 1\<close>, and counts the
  calls of \<^verbatim>\<open>Math.random\<close> so that every call reads the next element. The loop index
  runs from \<open>length a - 1\<close> down to 1.
\<close>

fun shuffleFrom :: "(nat \<Rightarrow> nat) \<Rightarrow> nat \<Rightarrow> 'a list \<Rightarrow> nat \<Rightarrow> 'a list \<times> nat" where
  "shuffleFrom rnd 0 a k = (a, k)"
| "shuffleFrom rnd (Suc i) a k =
     (let j = rnd k mod (Suc i + 1)
      in shuffleFrom rnd i (a[Suc i := a ! j, j := a ! Suc i]) (Suc k))"

definition shuffle :: "(nat \<Rightarrow> nat) \<Rightarrow> 'a list \<Rightarrow> nat \<Rightarrow> 'a list \<times> nat" where
  "shuffle rnd a k = shuffleFrom rnd (length a - 1) a k"


text \<open>
  The state of \<open>generateSolved\<close>: the grid, the nine sets of the rows, of the columns and
  of the blocks, and the number of random draws made so far. \<open>put\<close> is the group of
  statements that places \<open>n\<close> at \<open>pos\<close>, \<open>unput\<close> the group that takes it back. The loop
  \<^verbatim>\<open>for (const n of nums)\<close> of \<open>place\<close> is \<open>placeEach\<close>. With \<open>pos\<close> beyond 81 the row
  index is 9 or more, \<^verbatim>\<open>rows[r]\<close> is \<open>undefined\<close> and the call of \<^verbatim>\<open>has\<close> throws: the
  result \<open>None\<close>.
\<close>

record gen =
  grid :: "int list"
  rows :: "int set list"
  cols :: "int set list"
  blocks :: "int set list"
  calls :: nat

definition blockIndex :: "nat \<Rightarrow> nat \<Rightarrow> nat" where
  "blockIndex r c = r div 3 * 3 + c div 3"

definition put :: "nat \<Rightarrow> int \<Rightarrow> gen \<Rightarrow> gen" where
  "put pos n st =
     (let r = pos div 9; c = pos mod 9; b = blockIndex r c in
      st\<lparr>grid := (grid st)[pos := n],
         rows := (rows st)[r := insert n (rows st ! r)],
         cols := (cols st)[c := insert n (cols st ! c)],
         blocks := (blocks st)[b := insert n (blocks st ! b)]\<rparr>)"

definition unput :: "nat \<Rightarrow> int \<Rightarrow> gen \<Rightarrow> gen" where
  "unput pos n st =
     (let r = pos div 9; c = pos mod 9; b = blockIndex r c in
      st\<lparr>grid := (grid st)[pos := 0],
         rows := (rows st)[r := rows st ! r - {n}],
         cols := (cols st)[c := cols st ! c - {n}],
         blocks := (blocks st)[b := blocks st ! b - {n}]\<rparr>)"

function place :: "(nat \<Rightarrow> nat) \<Rightarrow> nat \<Rightarrow> gen \<Rightarrow> (bool \<times> gen) option"
  and placeEach :: "(nat \<Rightarrow> nat) \<Rightarrow> nat \<Rightarrow> int list \<Rightarrow> gen \<Rightarrow> (bool \<times> gen) option" where
  "place rnd pos st =
     (if pos = 81 then Some (True, st)
      else (let (nums, k) = shuffle rnd [1, 2, 3, 4, 5, 6, 7, 8, 9] (calls st)
            in placeEach rnd pos nums (st\<lparr>calls := k\<rparr>)))"
| "placeEach rnd pos [] st = Some (False, st)"
| "placeEach rnd pos (n # ns) st =
     (let r = pos div 9; c = pos mod 9 in
      if 9 \<le> r then None
      else if n \<in> rows st ! r \<or> n \<in> cols st ! c \<or> n \<in> blocks st ! blockIndex r c
        then placeEach rnd pos ns st
      else (case place rnd (pos + 1) (put pos n st) of
              None \<Rightarrow> None
            | Some (True, st') \<Rightarrow> Some (True, st')
            | Some (False, st') \<Rightarrow> placeEach rnd pos ns (unput pos n st')))"
  by pat_completeness auto
termination
  by (relation "inv_image (less_than <*lex*> less_than <*lex*> less_than)
        (\<lambda>x. case x of Inl (rnd, pos, st) \<Rightarrow> (82 - pos, 1, 0)
                       | Inr (rnd, pos, ns, st) \<Rightarrow> (82 - pos, 0, length ns))")
     auto

declare place.simps [simp del] placeEach.simps [simp del]

text \<open>
  \<open>generateSolved\<close> calls \<open>place 0\<close> on the empty grid and returns the grid whatever
  the call returned, here together with the number of draws made up to then, \<open>k\<close> being
  the number made before.
\<close>

definition generateSolved :: "(nat \<Rightarrow> nat) \<Rightarrow> nat \<Rightarrow> (grid \<times> nat) option" where
  "generateSolved rnd k =
     (case place rnd 0 \<lparr>grid = replicate 81 0, rows = replicate 9 {}, cols = replicate 9 {},
                        blocks = replicate 9 {}, calls = k\<rparr> of
        None \<Rightarrow> None
      | Some (_, st) \<Rightarrow> Some (grid st, calls st))"

subsection \<open>The search finds a grid whenever one exists\<close>

text \<open>
  \<open>genInv pos st\<close>: the cells before \<open>pos\<close> hold values of 1..9 without a duplicate in any
  unit, the cells from \<open>pos\<close> on are empty, and the sets hold exactly the values placed in
  their unit. \<open>validFull s\<close>: a full grid of values 1..9 without a duplicate in any unit.
  \<open>completion s g pos\<close>: \<open>s\<close> is such a grid and agrees with \<open>g\<close> before \<open>pos\<close>.
\<close>

definition unitValues :: "grid \<Rightarrow> (nat \<Rightarrow> bool) \<Rightarrow> int set" where
  "unitValues g P = {v. \<exists>i<81. P i \<and> g ! i = v \<and> v \<noteq> 0}"

definition genInv :: "nat \<Rightarrow> gen \<Rightarrow> bool" where
  "genInv pos st \<longleftrightarrow>
     length (grid st) = 81 \<and> length (rows st) = 9 \<and> length (cols st) = 9 \<and>
     length (blocks st) = 9 \<and>
     (\<forall>i<81. if i < pos then 1 \<le> grid st ! i \<and> grid st ! i \<le> 9 else grid st ! i = 0) \<and>
     (\<forall>r<9. rows st ! r = unitValues (grid st) (\<lambda>i. rowOf i = r)) \<and>
     (\<forall>c<9. cols st ! c = unitValues (grid st) (\<lambda>i. colOf i = c)) \<and>
     (\<forall>b<9. blocks st ! b = unitValues (grid st) (\<lambda>i. blockOf i = b)) \<and>
     (\<forall>i<pos. \<forall>j<pos. i \<noteq> j \<and> sameUnit i j \<longrightarrow> grid st ! i \<noteq> grid st ! j)"

definition validFull :: "grid \<Rightarrow> bool" where
  "validFull s \<longleftrightarrow>
     length s = 81 \<and> (\<forall>i<81. 1 \<le> s ! i \<and> s ! i \<le> 9) \<and>
     (\<forall>i<81. \<forall>j<81. i \<noteq> j \<and> sameUnit i j \<longrightarrow> s ! i \<noteq> s ! j)"

definition completion :: "grid \<Rightarrow> grid \<Rightarrow> nat \<Rightarrow> bool" where
  "completion s g pos \<longleftrightarrow> validFull s \<and> (\<forall>i<pos. s ! i = g ! i)"

lemma genInv_calls [simp]: "genInv pos (st\<lparr>calls := k\<rparr>) = genInv pos st"
  by (simp add: genInv_def)

lemma genInv_validFull: "genInv 81 st \<Longrightarrow> validFull (grid st)"
  by (auto simp: genInv_def validFull_def)

lemma blockOf_less: "i < 81 \<Longrightarrow> blockOf i < 9"
proof -
  assume "i < 81"
  then have "rowOf i div 3 < 3" by (simp add: rowOf_def)
  moreover have "colOf i div 3 < 3" by (simp add: colOf_def)
  ultimately show ?thesis unfolding blockOf_def by linarith
qed

lemma blockIndex_blockOf: "blockIndex (pos div 9) (pos mod 9) = blockOf pos"
  by (simp add: blockIndex_def blockOf_def rowOf_def colOf_def)

lemma unitValues_update:
  assumes "pos < 81" "g ! pos = 0" "length g = 81" "n \<noteq> 0"
  shows "unitValues (g[pos := n]) P = (if P pos then insert n (unitValues g P) else unitValues g P)"
proof -
  have *: "g[pos := n] ! i = (if i = pos then n else g ! i)" if "i < 81" for i
    using that assms by (simp add: nth_list_update)
  show ?thesis
    unfolding unitValues_def using assms by (auto simp: *)
qed

lemma genInv_put:
  assumes inv: "genInv pos st" and pos: "pos < 81" and n: "1 \<le> n" "n \<le> 9"
    and fresh: "n \<notin> rows st ! (pos div 9)" "n \<notin> cols st ! (pos mod 9)"
      "n \<notin> blocks st ! blockIndex (pos div 9) (pos mod 9)"
  shows "genInv (Suc pos) (put pos n st)"
proof -
  let ?g = "grid st"
  from inv have len: "length ?g = 81" "length (rows st) = 9" "length (cols st) = 9"
      "length (blocks st) = 9"
    and vals: "\<And>i. i < 81 \<Longrightarrow> (if i < pos then 1 \<le> ?g ! i \<and> ?g ! i \<le> 9 else ?g ! i = 0)"
    and rws: "\<And>r. r < 9 \<Longrightarrow> rows st ! r = unitValues ?g (\<lambda>i. rowOf i = r)"
    and cls: "\<And>c. c < 9 \<Longrightarrow> cols st ! c = unitValues ?g (\<lambda>i. colOf i = c)"
    and bls: "\<And>b. b < 9 \<Longrightarrow> blocks st ! b = unitValues ?g (\<lambda>i. blockOf i = b)"
    and dis: "\<And>i j. i < pos \<Longrightarrow> j < pos \<Longrightarrow> i \<noteq> j \<and> sameUnit i j \<Longrightarrow> ?g ! i \<noteq> ?g ! j"
    by (simp_all add: genInv_def)
  from vals [OF pos] have empty: "?g ! pos = 0" by simp
  from n have n0: "n \<noteq> 0" by simp
  have r9: "pos div 9 < 9" and c9: "pos mod 9 < 9" using pos by simp_all
  have b9: "blockIndex (pos div 9) (pos mod 9) < 9"
    using blockOf_less [OF pos] by (simp add: blockIndex_blockOf)
  note upd = unitValues_update [OF pos empty len(1) n0]
  have g': "grid (put pos n st) = ?g[pos := n]" by (simp add: put_def Let_def)
  have nth': "?g[pos := n] ! i = (if i = pos then n else ?g ! i)" if "i < 81" for i
    using that len(1) by (simp add: nth_list_update)
  have others: "?g ! i \<noteq> n" if "i < pos" "sameUnit i pos" for i
  proof -
    from that pos have i: "i < 81" by simp
    from vals [OF i] that have nz: "?g ! i \<noteq> 0" by auto
    from that(2) consider "rowOf i = pos div 9" | "colOf i = pos mod 9" | "blockOf i = blockOf pos"
      by (auto simp: sameUnit_def rowOf_def colOf_def)
    then show ?thesis
    proof cases
      case 1
      with i nz have "?g ! i \<in> unitValues ?g (\<lambda>i. rowOf i = pos div 9)"
        unfolding unitValues_def by blast
      with rws [OF r9] fresh(1) show ?thesis by auto
    next
      case 2
      with i nz have "?g ! i \<in> unitValues ?g (\<lambda>i. colOf i = pos mod 9)"
        unfolding unitValues_def by blast
      with cls [OF c9] fresh(2) show ?thesis by auto
    next
      case 3
      with i nz have "?g ! i \<in> unitValues ?g (\<lambda>i. blockOf i = blockIndex (pos div 9) (pos mod 9))"
        unfolding unitValues_def blockIndex_blockOf by blast
      with bls [OF b9] fresh(3) show ?thesis by auto
    qed
  qed
  have "length (grid (put pos n st)) = 81" "length (rows (put pos n st)) = 9"
    "length (cols (put pos n st)) = 9" "length (blocks (put pos n st)) = 9"
    using len by (simp_all add: put_def Let_def)
  moreover have "\<forall>i<81. if i < Suc pos then 1 \<le> grid (put pos n st) ! i \<and> grid (put pos n st) ! i \<le> 9
      else grid (put pos n st) ! i = 0"
  proof (intro allI impI)
    fix i :: nat assume i: "i < 81"
    from vals [OF i] n show "if i < Suc pos then 1 \<le> grid (put pos n st) ! i \<and> grid (put pos n st) ! i \<le> 9
      else grid (put pos n st) ! i = 0"
      unfolding g' nth' [OF i] by (auto simp: less_Suc_eq)
  qed
  moreover have "\<forall>r<9. rows (put pos n st) ! r = unitValues (grid (put pos n st)) (\<lambda>i. rowOf i = r)"
    unfolding g' upd using rws len r9
    by (auto simp: put_def Let_def nth_list_update rowOf_def)
  moreover have "\<forall>c<9. cols (put pos n st) ! c = unitValues (grid (put pos n st)) (\<lambda>i. colOf i = c)"
    unfolding g' upd using cls len c9
    by (auto simp: put_def Let_def nth_list_update colOf_def)
  moreover have "\<forall>b<9. blocks (put pos n st) ! b = unitValues (grid (put pos n st)) (\<lambda>i. blockOf i = b)"
    unfolding g' upd using bls len b9
    by (auto simp: put_def Let_def nth_list_update blockIndex_blockOf)
  moreover have "\<forall>i<Suc pos. \<forall>j<Suc pos. i \<noteq> j \<and> sameUnit i j \<longrightarrow>
      grid (put pos n st) ! i \<noteq> grid (put pos n st) ! j"
  proof (intro allI impI)
    fix i j assume i: "i < Suc pos" and j: "j < Suc pos" and h: "i \<noteq> j \<and> sameUnit i j"
    from i j pos have i81: "i < 81" and j81: "j < 81" by simp_all
    consider "i < pos" "j < pos" | "i = pos" "j < pos" | "i < pos" "j = pos"
      using i j h by (auto simp: less_Suc_eq)
    then show "grid (put pos n st) ! i \<noteq> grid (put pos n st) ! j"
    proof cases
      case 1
      with dis [OF 1 h] show ?thesis unfolding g' nth' [OF i81] nth' [OF j81] by simp
    next
      case 2
      with others [of j] h sameUnit_sym [of i j] show ?thesis
        unfolding g' nth' [OF i81] nth' [OF j81] by auto
    next
      case 3
      with others [of i] h show ?thesis
        unfolding g' nth' [OF i81] nth' [OF j81] by auto
    qed
  qed
  ultimately show ?thesis unfolding genInv_def by blast
qed

lemma unput_put:
  assumes inv: "genInv pos st" and pos: "pos < 81"
    and fresh: "n \<notin> rows st ! (pos div 9)" "n \<notin> cols st ! (pos mod 9)"
      "n \<notin> blocks st ! blockIndex (pos div 9) (pos mod 9)"
  shows "unput pos n ((put pos n st)\<lparr>calls := k\<rparr>) = st\<lparr>calls := k\<rparr>"
proof -
  from inv have len: "length (grid st) = 81" "length (rows st) = 9" "length (cols st) = 9"
      "length (blocks st) = 9" and "grid st ! pos = 0"
    using pos by (auto simp: genInv_def)
  then have "(grid st)[pos := 0] = grid st" by (simp add: list_update_same_conv pos)
  moreover have "pos div 9 < 9" "pos mod 9 < 9" using pos by simp_all
  moreover have "blockIndex (pos div 9) (pos mod 9) < 9"
    using blockOf_less [OF pos] by (simp add: blockIndex_blockOf)
  ultimately show ?thesis
    using fresh len by (simp add: put_def unput_def Let_def list_update_same_conv)
qed

lemma mset_shuffleFrom:
  "i < length a \<Longrightarrow> mset (fst (shuffleFrom rnd i a k)) = mset a"
proof (induction i arbitrary: a k)
  case 0
  then show ?case by simp
next
  case (Suc i)
  let ?j = "rnd k mod (Suc i + 1)"
  have j: "?j < length a" using Suc.prems by (simp add: less_le_trans [OF mod_less_divisor])
  have "mset (a[Suc i := a ! ?j, ?j := a ! Suc i]) = mset a"
    using Suc.prems j by (simp add: mset_swap)
  moreover have "i < length (a[Suc i := a ! ?j, ?j := a ! Suc i])" using Suc.prems by simp
  ultimately show ?case using Suc.IH [of "a[Suc i := a ! ?j, ?j := a ! Suc i]" "Suc k"]
    by (simp add: Let_def)
qed

lemma mset_shuffle: "mset (fst (shuffle rnd a k)) = mset a"
proof (cases a)
  case Nil
  then show ?thesis by (simp add: shuffle_def)
next
  case (Cons x xs)
  then show ?thesis unfolding shuffle_def by (intro mset_shuffleFrom) simp
qed

lemma set_shuffle: "set (fst (shuffle rnd a k)) = set a"
  using mset_shuffle [of rnd a k] by (metis set_mset_mset)

lemma completion_value: "completion s g pos \<Longrightarrow> i < 81 \<Longrightarrow> 1 \<le> s ! i \<and> s ! i \<le> 9"
  by (simp add: completion_def validFull_def)

lemma taken_no_completion:
  assumes inv: "genInv pos st" and pos: "pos < 81"
    and taken: "n \<in> rows st ! (pos div 9) \<or> n \<in> cols st ! (pos mod 9) \<or>
                n \<in> blocks st ! blockIndex (pos div 9) (pos mod 9)"
    and c: "completion s (grid st) pos"
  shows "s ! pos \<noteq> n"
proof
  assume sn: "s ! pos = n"
  have r9: "pos div 9 < 9" and c9: "pos mod 9 < 9" using pos by simp_all
  have b9: "blockOf pos < 9" using pos by (rule blockOf_less)
  from inv have vals: "\<And>i. i < 81 \<Longrightarrow> \<not> i < pos \<Longrightarrow> grid st ! i = 0"
    and rws: "rows st ! (pos div 9) = unitValues (grid st) (\<lambda>i. rowOf i = pos div 9)"
    and cls: "cols st ! (pos mod 9) = unitValues (grid st) (\<lambda>i. colOf i = pos mod 9)"
    and bls: "blocks st ! blockOf pos = unitValues (grid st) (\<lambda>i. blockOf i = blockOf pos)"
    using r9 c9 b9 by (auto simp: genInv_def split: if_splits)
  from taken rws cls bls obtain i where i: "i < 81" "grid st ! i = n" "n \<noteq> 0"
    and u: "rowOf i = pos div 9 \<or> colOf i = pos mod 9 \<or> blockOf i = blockOf pos"
    unfolding blockIndex_blockOf unitValues_def by auto
  from vals [OF i(1)] i have ip: "i < pos" by auto
  from u have su: "sameUnit i pos" by (auto simp: sameUnit_def rowOf_def colOf_def)
  from c ip have "s ! i = grid st ! i" by (simp add: completion_def)
  moreover from c have "\<And>a b. a < 81 \<Longrightarrow> b < 81 \<Longrightarrow> a \<noteq> b \<and> sameUnit a b \<Longrightarrow> s ! a \<noteq> s ! b"
    by (simp add: completion_def validFull_def)
  from this [OF i(1) pos] ip su have "s ! i \<noteq> s ! pos" by simp
  ultimately show False using sn i(2) by simp
qed

lemma completion_put:
  assumes "completion s (grid st) pos" "s ! pos = n" "pos < length (grid st)"
  shows "completion s (grid (put pos n st)) (Suc pos)"
  using assms by (auto simp: completion_def put_def Let_def nth_list_update less_Suc_eq)

lemma search_complete:
  "genInv pos st \<Longrightarrow> pos \<le> 81 \<Longrightarrow>
     (\<exists>b st'. place rnd pos st = Some (b, st') \<and>
        (b \<longrightarrow> genInv 81 st') \<and>
        (\<not> b \<longrightarrow> st' = st\<lparr>calls := calls st'\<rparr> \<and> (\<forall>s. \<not> completion s (grid st) pos)))"
  "genInv pos st \<Longrightarrow> pos < 81 \<Longrightarrow> (\<forall>n\<in>set ns. 1 \<le> n \<and> n \<le> 9) \<Longrightarrow>
     (\<exists>b st'. placeEach rnd pos ns st = Some (b, st') \<and>
        (b \<longrightarrow> genInv 81 st') \<and>
        (\<not> b \<longrightarrow> st' = st\<lparr>calls := calls st'\<rparr> \<and>
           (\<forall>s. completion s (grid st) pos \<longrightarrow> s ! pos \<notin> set ns)))"
proof (induction rnd pos st and rnd pos ns st rule: place_placeEach.induct)
  case (1 rnd pos st)
  show ?case
  proof (cases "pos = 81")
    case True
    with "1.prems" show ?thesis
      by (intro exI [of _ True] exI [of _ st]) (simp add: place.simps)
  next
    case False
    let ?digits = "[1, 2, 3, 4, 5, 6, 7, 8, 9] :: int list"
    obtain nums k where sh: "shuffle rnd ?digits (calls st) = (nums, k)"
      by (cases "shuffle rnd ?digits (calls st)")
    from set_shuffle [of rnd ?digits "calls st"] sh
    have nums: "set nums = {1, 2, 3, 4, 5, 6, 7, 8, 9}" by simp
    then have rng: "\<forall>n\<in>set nums. 1 \<le> n \<and> n \<le> 9" by simp
    from False "1.prems" have pos: "pos < 81" by simp
    from "1.IH" [OF False sh [symmetric] refl _ pos rng] "1.prems"(1)
    obtain b st' where r: "placeEach rnd pos nums (st\<lparr>calls := k\<rparr>) = Some (b, st')"
      and t: "b \<longrightarrow> genInv 81 st'"
      and f: "\<not> b \<longrightarrow> st' = st\<lparr>calls := k, calls := calls st'\<rparr> \<and>
           (\<forall>s. completion s (grid st) pos \<longrightarrow> s ! pos \<notin> set nums)"
      by auto
    have "\<forall>s. \<not> completion s (grid st) pos" if "\<not> b"
    proof (intro allI notI)
      fix s assume c: "completion s (grid st) pos"
      from completion_value [OF c pos] have "s ! pos \<in> set nums" unfolding nums by auto
      with f that c show False by blast
    qed
    with r t f False sh show ?thesis by (auto simp: place.simps [of rnd pos st])
  qed
next
  case (2 rnd pos st)
  show ?case by (intro exI [of _ False] exI [of _ st]) (simp add: placeEach.simps)
next
  case (3 rnd pos n ns st)
  from "3.prems" have r9: "\<not> 9 \<le> pos div 9" and pos: "pos < 81" and inv: "genInv pos st"
    and n: "1 \<le> n" "n \<le> 9" and rng: "\<forall>n\<in>set ns. 1 \<le> n \<and> n \<le> 9"
    by simp_all
  show ?case
  proof (cases "n \<in> rows st ! (pos div 9) \<or> n \<in> cols st ! (pos mod 9) \<or>
                n \<in> blocks st ! blockIndex (pos div 9) (pos mod 9)")
    case True
    from "3.IH"(1) [OF refl refl r9 True inv pos rng]
    obtain b st' where r: "placeEach rnd pos ns st = Some (b, st')"
      and t: "b \<longrightarrow> genInv 81 st'"
      and f: "\<not> b \<longrightarrow> st' = st\<lparr>calls := calls st'\<rparr> \<and>
           (\<forall>s. completion s (grid st) pos \<longrightarrow> s ! pos \<notin> set ns)"
      by auto
    from taken_no_completion [OF inv pos True]
    have "\<forall>s. completion s (grid st) pos \<longrightarrow> s ! pos \<noteq> n" by blast
    with r t f True r9 show ?thesis by (auto simp: Let_def placeEach.simps(2) [of rnd pos n ns st])
  next
    case False
    then have fresh: "n \<notin> rows st ! (pos div 9)" "n \<notin> cols st ! (pos mod 9)"
      "n \<notin> blocks st ! blockIndex (pos div 9) (pos mod 9)" by simp_all
    have inv2: "genInv (pos + 1) (put pos n st)"
      using genInv_put [OF inv pos n fresh] by simp
    from "3.IH"(2) [OF refl refl r9 False inv2] pos
    obtain b1 st1 where r1: "place rnd (pos + 1) (put pos n st) = Some (b1, st1)"
      and t1: "b1 \<longrightarrow> genInv 81 st1"
      and f1: "\<not> b1 \<longrightarrow> st1 = (put pos n st)\<lparr>calls := calls st1\<rparr> \<and>
                (\<forall>s. \<not> completion s (grid (put pos n st)) (pos + 1))"
      by auto
    show ?thesis
    proof (cases b1)
      case True
      with r1 False r9 have "placeEach rnd pos (n # ns) st = Some (True, st1)"
        by (simp add: Let_def placeEach.simps(2) [of rnd pos n ns st])
      with t1 True show ?thesis by blast
    next
      case nb: False
      with f1 have st1: "st1 = (put pos n st)\<lparr>calls := calls st1\<rparr>"
        and none: "\<And>s. \<not> completion s (grid (put pos n st)) (pos + 1)" by simp_all
      have restored: "unput pos n st1 = st\<lparr>calls := calls st1\<rparr>"
        using unput_put [OF inv pos fresh, of "calls st1"] st1 by simp
      have inv3: "genInv pos (unput pos n st1)" unfolding restored using inv by simp
      from "3.IH"(3) [OF refl refl r9 False r1 refl _ inv3 pos rng] nb
      obtain b st' where r: "placeEach rnd pos ns (unput pos n st1) = Some (b, st')"
        and t: "b \<longrightarrow> genInv 81 st'"
        and f: "\<not> b \<longrightarrow> st' = (unput pos n st1)\<lparr>calls := calls st'\<rparr> \<and>
             (\<forall>s. completion s (grid (unput pos n st1)) pos \<longrightarrow> s ! pos \<notin> set ns)"
        by auto
      have whole: "placeEach rnd pos (n # ns) st = Some (b, st')"
        using r r1 nb False r9 by (simp add: Let_def placeEach.simps(2) [of rnd pos n ns st])
      have len: "pos < length (grid st)" using inv pos by (simp add: genInv_def)
      have "st' = st\<lparr>calls := calls st'\<rparr> \<and>
            (\<forall>s. completion s (grid st) pos \<longrightarrow> s ! pos \<notin> set (n # ns))" if "\<not> b"
      proof (intro conjI allI impI)
        from f that show "st' = st\<lparr>calls := calls st'\<rparr>" unfolding restored by simp
        fix s assume c: "completion s (grid st) pos"
        from f that c have "s ! pos \<notin> set ns" unfolding restored by simp
        moreover from completion_put [OF c refl len] none have "s ! pos \<noteq> n"
          by (metis Suc_eq_plus1 completion_put c len)
        ultimately show "s ! pos \<notin> set (n # ns)" by simp
      qed
      with whole t show ?thesis by blast
    qed
  qed
qed

subsection \<open>Solved grids\<close>

text \<open>
  The cells of row, column and block \<open>u\<close>, and the grids in which each of them holds every
  value of 1..9 exactly once.
\<close>

definition rowCells :: "nat \<Rightarrow> nat list" where
  "rowCells r = map (\<lambda>c. r * 9 + c) [0..<9]"

definition colCells :: "nat \<Rightarrow> nat list" where
  "colCells c = map (\<lambda>r. r * 9 + c) [0..<9]"

definition blockCells :: "nat \<Rightarrow> nat list" where
  "blockCells b = map (\<lambda>k. (b div 3 * 3 + k div 3) * 9 + (b mod 3 * 3 + k mod 3)) [0..<9]"

definition permutation19 :: "int list \<Rightarrow> bool" where
  "permutation19 vs \<longleftrightarrow> length vs = 9 \<and> list_all (\<lambda>v. count_list vs v = 1) [1..9]"

definition solvedGrid :: "grid \<Rightarrow> bool" where
  "solvedGrid g \<longleftrightarrow>
     length g = 81 \<and>
     list_all (\<lambda>u. permutation19 (map ((!) g) (rowCells u)) \<and>
                  permutation19 (map ((!) g) (colCells u)) \<and>
                  permutation19 (map ((!) g) (blockCells u))) [0..<9]"

lemma unit_cells_facts:
  "list_all (\<lambda>u. distinct (rowCells u) \<and> list_all (\<lambda>i. i < 81 \<and> rowOf i = u) (rowCells u) \<and>
                distinct (colCells u) \<and> list_all (\<lambda>i. i < 81 \<and> colOf i = u) (colCells u) \<and>
                distinct (blockCells u) \<and> list_all (\<lambda>i. i < 81 \<and> blockOf i = u) (blockCells u))
     [0..<9]"
  by code_simp

lemma permutation19_if:
  assumes "length vs = 9" "distinct vs" "set vs \<subseteq> {1..9}"
  shows "permutation19 vs"
proof -
  have "card (set vs) = 9" using assms(1,2) by (simp add: distinct_card)
  moreover have "card {1..9::int} = 9" by simp
  ultimately have "set vs = {1..9}" using assms(3) by (metis card_subset_eq finite_atLeastAtMost_int)
  then have "count_list vs v = 1" if "v \<in> set [1..9]" for v
    using that assms(2) by (metis count_mset distinct_count_atmost_1 set_upto)
  then show ?thesis using assms(1) by (simp add: permutation19_def list_all_iff)
qed

lemma unit_permutation:
  assumes v: "validFull g" and d: "distinct cells" and len: "length cells = 9"
    and u: "\<forall>i\<in>set cells. i < 81"
    and s: "\<forall>i\<in>set cells. \<forall>j\<in>set cells. sameUnit i j"
  shows "permutation19 (map ((!) g) cells)"
proof (rule permutation19_if)
  show "length (map ((!) g) cells) = 9" using len by simp
  from v have rng: "\<And>i. i < 81 \<Longrightarrow> 1 \<le> g ! i \<and> g ! i \<le> 9"
    and ne: "\<And>i j. i < 81 \<Longrightarrow> j < 81 \<Longrightarrow> i \<noteq> j \<and> sameUnit i j \<Longrightarrow> g ! i \<noteq> g ! j"
    by (simp_all add: validFull_def)
  have "inj_on ((!) g) (set cells)"
  proof (rule inj_onI)
    fix i j assume "i \<in> set cells" "j \<in> set cells" "g ! i = g ! j"
    with ne [of i j] u s show "i = j" by blast
  qed
  with d show "distinct (map ((!) g) cells)" by (simp add: distinct_map)
  show "set (map ((!) g) cells) \<subseteq> {1..9}" using rng u by auto
qed

lemma validFull_solvedGrid:
  assumes "validFull g"
  shows "solvedGrid g"
proof -
  have "permutation19 (map ((!) g) (rowCells u)) \<and> permutation19 (map ((!) g) (colCells u)) \<and>
        permutation19 (map ((!) g) (blockCells u))" if "u < 9" for u
  proof -
    from unit_cells_facts that
    have r: "distinct (rowCells u)" "\<forall>i\<in>set (rowCells u). i < 81 \<and> rowOf i = u"
      and c: "distinct (colCells u)" "\<forall>i\<in>set (colCells u). i < 81 \<and> colOf i = u"
      and b: "distinct (blockCells u)" "\<forall>i\<in>set (blockCells u). i < 81 \<and> blockOf i = u"
      unfolding list_all_iff by auto
    have "permutation19 (map ((!) g) (rowCells u))"
      using assms r by (intro unit_permutation) (auto simp: sameUnit_def rowCells_def)
    moreover have "permutation19 (map ((!) g) (colCells u))"
      using assms c by (intro unit_permutation) (auto simp: sameUnit_def colCells_def)
    moreover have "permutation19 (map ((!) g) (blockCells u))"
      using assms b by (intro unit_permutation) (auto simp: sameUnit_def blockCells_def)
    ultimately show ?thesis by simp
  qed
  moreover from assms have "length g = 81" by (simp add: validFull_def)
  ultimately show ?thesis by (simp add: solvedGrid_def list_all_iff)
qed

lemma validFull_complete: "validFull g \<Longrightarrow> complete g"
  by (auto simp: validFull_def complete_def list_all_iff cell_def)

lemma validFull_if_consistent:
  assumes "length s = 81" "list_all (\<lambda>v. 1 \<le> v \<and> v \<le> 9) s" "consistent s"
  shows "validFull s"
  unfolding validFull_def
proof (intro conjI allI impI)
  show "length s = 81" by fact
  fix i :: nat assume i: "i < 81"
  with assms(1,2) show "1 \<le> s ! i" "s ! i \<le> 9" by (simp_all add: list_all_length)
  fix j :: nat assume j: "j < 81" and h: "i \<noteq> j \<and> sameUnit i j"
  show "s ! i \<noteq> s ! j"
  proof
    assume e: "s ! i = s ! j"
    from i j assms(1) e have "cell s i = Some (s ! i)" "cell s j = Some (s ! i)"
      by (simp_all add: cell_def)
    moreover from \<open>1 \<le> s ! i\<close> have "s ! i \<noteq> 0" by simp
    ultimately have "duplicated s i"
      unfolding duplicated_iff occursElsewhere_iff using j h by blast
    with assms(3) i show False by (simp add: consistent_iff)
  qed
qed

lemma reference_validFull: "validFull reference"
proof (rule validFull_if_consistent)
  show "length reference = 81" by code_simp
  show "list_all (\<lambda>v. 1 \<le> v \<and> v \<le> 9) reference" by code_simp
  have "\<not> list_ex (\<lambda>b. b) (updateConflicts reference)" by (rule reference_no_conflicts)
  then show "consistent reference" by (simp add: consistent_updateConflicts)
qed

lemma genInv_start:
  "genInv 0 \<lparr>grid = replicate 81 0, rows = replicate 9 {}, cols = replicate 9 {},
             blocks = replicate 9 {}, calls = k\<rparr>"
  by (auto simp: genInv_def unitValues_def)


lemma generateSolved_validFull:
  "\<exists>g k'. generateSolved rnd k = Some (g, k') \<and> validFull g"
proof -
  let ?st = "\<lparr>grid = replicate 81 0, rows = replicate 9 {}, cols = replicate 9 {},
             blocks = replicate 9 {}, calls = k\<rparr>"
  have "genInv 0 ?st" by (rule genInv_start)
  from search_complete(1) [OF this, of rnd]
  obtain b st' where r: "place rnd 0 ?st = Some (b, st')"
    and t: "b \<longrightarrow> genInv 81 st'" and f: "\<not> b \<longrightarrow> (\<forall>s. \<not> completion s (grid ?st) 0)"
    by auto
  have "completion reference (grid ?st) 0"
    using reference_validFull by (simp add: completion_def)
  with f have b by blast
  with t have "validFull (grid st')" by (simp add: genInv_validFull)
  with r show ?thesis by (simp add: generateSolved_def)
qed

text \<open>
  Claim C2. Whatever the random draws are, \<open>generateSolved\<close> returns a grid (no
  exception is thrown), no cell of it is empty, and every row, every column and every
  3x3 block of it holds each value of 1..9 exactly once.
\<close>

theorem generateSolved_succeeds:
  "\<exists>g k'. generateSolved rnd k = Some (g, k') \<and> complete g \<and> solvedGrid g"
proof -
  from generateSolved_validFull [of rnd k]
  obtain g k' where "generateSolved rnd k = Some (g, k')" and "validFull g" by blast
  then show ?thesis by (auto simp: validFull_complete validFull_solvedGrid)
qed

section \<open>The carver\<close>

text \<open>
  \<open>makePuzzle\<close> receives a reference to the array \<open>solved\<close> and works on the copy that
  \<^verbatim>\<open>solved.slice()\<close> allocates. Whether the caller's array is touched depends on that
  copy, so arrays live in a heap here: a map from references to arrays and the next
  unused reference. \<open>slice\<close> allocates a copy, \<open>assign a i v\<close> is \<^verbatim>\<open>a[i] = v\<close>. \<open>solve\<close>
  copies its argument and mutates only the copy, which is dropped after the test
  \<^verbatim>\<open>!attempt\<close>; the model passes it the array's value.

  \<open>carveEach\<close> is the loop \<^verbatim>\<open>for (const idx of order)\<close> with its counter \<open>removed\<close>; the
  first equation and the test \<open>removed \<ge> removals\<close> are the two ways out of it. The
  indices of \<open>order\<close> are those of the 81 cells, so on a grid every read and every
  assignment of the loop is inside the array.
\<close>

type_synonym ref = nat

record heap =
  arr :: "ref \<Rightarrow> int list"
  next_ref :: ref

definition slice :: "ref \<Rightarrow> heap \<Rightarrow> ref \<times> heap" where
  "slice a h = (next_ref h, h\<lparr>arr := (arr h)(next_ref h := arr h a), next_ref := Suc (next_ref h)\<rparr>)"

definition assign :: "ref \<Rightarrow> nat \<Rightarrow> int \<Rightarrow> heap \<Rightarrow> heap" where
  "assign a i v h = h\<lparr>arr := (arr h)(a := (arr h a)[i := v])\<rparr>"

fun carveEach :: "ref \<Rightarrow> int \<Rightarrow> nat list \<Rightarrow> int \<Rightarrow> heap \<Rightarrow> heap" where
  "carveEach puzzle removals [] removed h = h"
| "carveEach puzzle removals (idx # order) removed h =
     (if removed \<ge> removals then h
      else (let backup = arr h puzzle ! idx;
                h1 = assign puzzle idx 0 h;
                attempt = solve (arr h1 puzzle)
            in if attempt = None
               then carveEach puzzle removals order removed (assign puzzle idx backup h1)
               else carveEach puzzle removals order (removed + 1) h1))"

definition makePuzzle :: "(nat \<Rightarrow> nat) \<Rightarrow> ref \<Rightarrow> int \<Rightarrow> nat \<Rightarrow> heap \<Rightarrow> ref \<times> heap \<times> nat" where
  "makePuzzle rnd solved removals k h =
     (let (puzzle, h1) = slice solved h;
          (order, k') = shuffle rnd [0..<81] k
      in (puzzle, carveEach puzzle removals order 0 h1, k'))"


text \<open>
  \<open>erases solved p\<close>: \<open>p\<close> has the length of \<open>solved\<close>, and every cell of \<open>p\<close> holds the
  value it has in \<open>solved\<close> or 0.
\<close>

definition erases :: "grid \<Rightarrow> grid \<Rightarrow> bool" where
  "erases solved p \<longleftrightarrow>
     length p = length solved \<and> list_all (\<lambda>i. p ! i = solved ! i \<or> p ! i = 0) [0..<length solved]"

lemma erases_refl: "erases g g"
  by (simp add: erases_def list_all_iff)

lemma erases_iff:
  "erases s p \<longleftrightarrow> length p = length s \<and> (\<forall>i<length s. p ! i = s ! i \<or> p ! i = 0)"
  by (auto simp: erases_def list_all_iff)

lemma erases_clear:
  assumes "erases s p"
  shows "erases s (p[i := 0])"
  unfolding erases_iff
proof (intro conjI allI impI)
  from assms show "length (p[i := 0]) = length s" by (simp add: erases_iff)
  fix j assume "j < length s"
  with assms show "p[i := 0] ! j = s ! j \<or> p[i := 0] ! j = 0"
    by (cases "j = i") (simp_all add: erases_iff)
qed

lemma arr_assign: "arr (assign a i v h) b = (if b = a then (arr h a)[i := v] else arr h b)"
  by (simp add: assign_def)

lemma next_assign [simp]: "next_ref (assign a i v h) = next_ref h"
  by (simp add: assign_def)

lemma assign_back:
  "assign a i (arr h a ! i) (assign a i v h) = h"
  by (simp add: assign_def fun_eq_iff list_update_id fun_upd_idem)

lemma solve_full:
  assumes "complete g"
  shows "solve g = Some g"
proof -
  from assms have "findEmpty g = None" by (simp add: findEmpty_None_iff)
  then show ?thesis by (simp add: solve_def backtrack.simps)
qed

lemma carveEach_keeps:
  assumes "solve (arr h puzzle) \<noteq> None" "int (emptyCount (arr h puzzle)) \<le> removed"
    "removed \<le> removals"
  shows "solve (arr (carveEach puzzle removals order removed h) puzzle) \<noteq> None \<and>
         int (emptyCount (arr (carveEach puzzle removals order removed h) puzzle)) \<le> removals"
  using assms
proof (induction order arbitrary: removed h)
  case Nil
  then show ?case by simp
next
  case (Cons idx order)
  show ?case
  proof (cases "removed \<ge> removals")
    case True
    with Cons.prems show ?thesis by simp
  next
    case False
    let ?h1 = "assign puzzle idx 0 h"
    show ?thesis
    proof (cases "solve (arr ?h1 puzzle) = None")
      case True
      have "assign puzzle idx (arr h puzzle ! idx) ?h1 = h" by (rule assign_back)
      with False True
      have "carveEach puzzle removals (idx # order) removed h =
            carveEach puzzle removals order removed h" by (simp add: Let_def)
      with Cons.IH [OF Cons.prems] show ?thesis by simp
    next
      case ok: False
      have "emptyCount (arr ?h1 puzzle) \<le> Suc (emptyCount (arr h puzzle))"
        by (simp add: arr_assign emptyCount_update_le)
      with Cons.prems(2) False have "int (emptyCount (arr ?h1 puzzle)) \<le> removed + 1"
        and "removed + 1 \<le> removals" by simp_all
      moreover from False ok
      have "carveEach puzzle removals (idx # order) removed h =
            carveEach puzzle removals order (removed + 1) ?h1" by (auto simp: Let_def)
      ultimately show ?thesis using Cons.IH [OF ok] by simp
    qed
  qed
qed

lemma carveEach_frame:
  "next_ref (carveEach puzzle removals order removed h) = next_ref h \<and>
   (\<forall>a. a \<noteq> puzzle \<longrightarrow> arr (carveEach puzzle removals order removed h) a = arr h a)"
proof (induction order arbitrary: removed h)
  case Nil
  then show ?case by simp
next
  case (Cons idx order)
  let ?h1 = "assign puzzle idx 0 h"
  have "assign puzzle idx (arr h puzzle ! idx) ?h1 = h" by (rule assign_back)
  with Cons.IH [of removed h] Cons.IH [of "removed + 1" ?h1] show ?case
    by (simp add: Let_def arr_assign)
qed

lemma carveEach_erases:
  assumes "erases s (arr h puzzle)"
  shows "erases s (arr (carveEach puzzle removals order removed h) puzzle)"
  using assms
proof (induction order arbitrary: removed h)
  case Nil
  then show ?case by simp
next
  case (Cons idx order)
  let ?h1 = "assign puzzle idx 0 h"
  have "assign puzzle idx (arr h puzzle ! idx) ?h1 = h" by (rule assign_back)
  moreover have "erases s (arr ?h1 puzzle)"
    using Cons.prems by (simp add: arr_assign erases_clear)
  ultimately show ?case
    using Cons.IH [of h removed] Cons.IH [of ?h1 "removed + 1"] Cons.prems
    by (simp add: Let_def)
qed

lemma complete_emptyCount:
  assumes "length g = 81" "complete g"
  shows "emptyCount g = 0"
proof -
  have "v \<noteq> 0" if "v \<in> set g" for v
  proof -
    from that obtain i where "i < length g" "g ! i = v" by (auto simp: in_set_conv_nth)
    with assms show ?thesis by (auto simp: complete_def list_all_iff cell_def)
  qed
  then show ?thesis by (auto simp: emptyCount_def filter_empty_conv)
qed

lemma emptyCount_le_length: "emptyCount g \<le> length g"
  by (simp add: emptyCount_def)

lemma makePuzzle_unfold:
  "makePuzzle rnd solved removals k h =
     (next_ref h,
      carveEach (next_ref h) removals (fst (shuffle rnd [0..<81] k)) 0 (snd (slice solved h)),
      snd (shuffle rnd [0..<81] k))"
  by (simp add: makePuzzle_def slice_def Let_def split: prod.split)

lemma arr_slice:
  "arr (snd (slice a h)) b = (if b = next_ref h then arr h a else arr h b)"
  by (simp add: slice_def)

lemma next_slice [simp]: "next_ref (snd (slice a h)) = Suc (next_ref h)"
  by (simp add: slice_def)

lemma makePuzzle_result:
  assumes "makePuzzle rnd solved removals k h = (p, h', k')"
  shows "p = next_ref h" and "next_ref h' = Suc (next_ref h)"
    and "erases (arr h solved) (arr h' p)" and "\<And>a. a < next_ref h \<Longrightarrow> arr h' a = arr h a"
proof -
  let ?order = "fst (shuffle rnd [0..<81] k)" and ?h1 = "snd (slice solved h)"
  from assms show p: "p = next_ref h" by (auto simp: makePuzzle_unfold)
  from assms have h': "h' = carveEach p removals ?order 0 ?h1"
    by (auto simp: makePuzzle_unfold)
  have start: "arr ?h1 p = arr h solved" by (simp add: p arr_slice)
  have "erases (arr ?h1 p) (arr h' p)"
    unfolding h' by (intro carveEach_erases erases_refl)
  then show "erases (arr h solved) (arr h' p)" by (simp only: start)
  from carveEach_frame [of p removals ?order 0 ?h1]
  have nx: "next_ref h' = next_ref ?h1" and frame: "\<And>a. a \<noteq> p \<Longrightarrow> arr h' a = arr ?h1 a"
    unfolding h' by blast+
  from nx show "next_ref h' = Suc (next_ref h)" by simp
  show "arr h' a = arr h a" if "a < next_ref h" for a
    using frame [of a] that p by (simp add: arr_slice)
qed

text \<open>
  The array that the loop leaves at \<open>puzzle\<close>, as a function of the array it finds there:
  \<open>carveCells\<close> is \<open>carveEach\<close> read on values, used to compute concrete puzzles.
\<close>

fun carveCells :: "int \<Rightarrow> nat list \<Rightarrow> int \<Rightarrow> grid \<Rightarrow> grid" where
  "carveCells removals [] removed g = g"
| "carveCells removals (idx # order) removed g =
     (if removed \<ge> removals then g
      else if solve (g[idx := 0]) = None then carveCells removals order removed g
      else carveCells removals order (removed + 1) (g[idx := 0]))"

lemma carveEach_value:
  "arr (carveEach p removals order removed h) p = carveCells removals order removed (arr h p)"
proof (induction order arbitrary: removed h)
  case Nil
  then show ?case by simp
next
  case (Cons idx order)
  let ?h1 = "assign p idx 0 h"
  have "assign p idx (arr h p ! idx) ?h1 = h" by (rule assign_back)
  moreover have "arr ?h1 p = (arr h p)[idx := 0]" by (simp add: arr_assign)
  ultimately show ?case
    using Cons.IH [of removed h] Cons.IH [of "removed + 1" ?h1] by (simp add: Let_def)
qed

lemma makePuzzle_value:
  assumes "makePuzzle rnd solved removals k h = (p, h', k')"
  shows "arr h' p = carveCells removals (fst (shuffle rnd [0..<81] k)) 0 (arr h solved)"
proof -
  from assms have "p = next_ref h"
    and "h' = carveEach p removals (fst (shuffle rnd [0..<81] k)) 0 (snd (slice solved h))"
    by (auto simp: makePuzzle_unfold)
  then show ?thesis by (simp add: carveEach_value arr_slice)
qed

lemma carveCells_erases:
  "erases s g \<Longrightarrow> erases s (carveCells removals order removed g)"
  by (induction order arbitrary: removed g) (simp_all add: erases_clear)

text \<open>A heap that holds the reference solution at reference 0, and the puzzle carved
  from it with two removals when every random draw is 0.\<close>

definition heap0 :: heap where
  "heap0 = \<lparr>arr = (\<lambda>_. [])(0 := reference), next_ref = 1\<rparr>"

lemma heap0_carved:
  "fst (makePuzzle (\<lambda>_. 0) 0 2 0 heap0) = 1 \<and>
   arr (fst (snd (makePuzzle (\<lambda>_. 0) 0 2 0 heap0))) 1 = reference[1 := 0, 2 := 0]"
  by code_simp

text \<open>
  Claim C3. For every fully filled grid \<open>solved\<close> of 81 cells (a valid solved grid is
  one) and every non-negative \<open>removals\<close>, \<open>makePuzzle\<close> returns a grid on which \<open>solve\<close>
  succeeds and which has at most \<open>min removals 81\<close> zero cells. The function returns
  normally whether or not \<open>removals\<close> was reached.
\<close>

theorem makePuzzle_solvable:
  assumes "length (arr h solved) = 81" and "complete (arr h solved)" and "0 \<le> removals"
    and "makePuzzle rnd solved removals k h = (p, h', k')"
  shows "solve (arr h' p) \<noteq> None \<and> int (emptyCount (arr h' p)) \<le> min removals 81"
proof -
  let ?order = "fst (shuffle rnd [0..<81] k)" and ?h1 = "snd (slice solved h)"
  from assms(4) have p: "p = next_ref h" and h': "h' = carveEach p removals ?order 0 ?h1"
    by (auto simp: makePuzzle_unfold)
  have start: "arr ?h1 p = arr h solved" by (simp add: p arr_slice)
  have "solve (arr ?h1 p) \<noteq> None" using assms(2) by (simp add: start solve_full)
  moreover have "int (emptyCount (arr ?h1 p)) \<le> 0"
    using assms(1,2) by (simp add: start complete_emptyCount)
  ultimately have "solve (arr h' p) \<noteq> None \<and> int (emptyCount (arr h' p)) \<le> removals"
    unfolding h' using assms(3) by (rule carveEach_keeps)
  moreover have "erases (arr ?h1 p) (arr h' p)"
    unfolding h' by (intro carveEach_erases erases_refl)
  then have "length (arr h' p) = 81" using assms(1) by (simp add: erases_iff start)
  with emptyCount_le_length [of "arr h' p"] have "int (emptyCount (arr h' p)) \<le> 81" by simp
  ultimately show ?thesis by simp
qed

theorem makePuzzle_solvable_witness:
  "arr (fst (snd (makePuzzle (\<lambda>_. 0) 0 2 0 heap0))) 1 = reference[1 := 0, 2 := 0] \<and>
   solve (reference[1 := 0, 2 := 0]) \<noteq> None \<and>
   int (emptyCount (reference[1 := 0, 2 := 0])) \<le> min 2 81"
proof -
  let ?m = "makePuzzle (\<lambda>_. 0) 0 2 0 heap0"
  have a: "length (arr heap0 0) = 81" by code_simp
  have b: "complete (arr heap0 0)" by code_simp
  have c: "(0::int) \<le> 2" by simp
  have d: "?m = (fst ?m, fst (snd ?m), snd (snd ?m))" by simp
  from makePuzzle_solvable [OF a b c d] heap0_carved show ?thesis by simp
qed

text \<open>
  Claim C10. For every input grid of 81 cells and every \<open>removals\<close>, each cell of the
  returned grid holds the value it has in the input or 0. The returned array is a new
  one: the input array, and every other array allocated before the call, is unmodified.
\<close>

theorem makePuzzle_only_erases:
  assumes "length (arr h solved) = 81" and "solved < next_ref h"
    and "makePuzzle rnd solved removals k h = (p, h', k')"
  shows "erases (arr h solved) (arr h' p) \<and> p \<noteq> solved \<and> arr h' solved = arr h solved \<and>
         (\<forall>a<next_ref h. arr h' a = arr h a)"
proof -
  note r = makePuzzle_result [OF assms(3)]
  from r(1) assms(2) have "p \<noteq> solved" by simp
  with r(3) r(4) assms(2) show ?thesis by simp
qed

theorem makePuzzle_only_erases_witness:
  "arr (fst (snd (makePuzzle (\<lambda>_. 0) 0 2 0 heap0))) 1 = reference[1 := 0, 2 := 0] \<and>
   erases reference (reference[1 := 0, 2 := 0]) \<and>
   arr (fst (snd (makePuzzle (\<lambda>_. 0) 0 2 0 heap0))) 0 = reference"
proof -
  let ?m = "makePuzzle (\<lambda>_. 0) 0 2 0 heap0"
  have a: "length (arr heap0 0) = 81" by code_simp
  have b: "0 < next_ref heap0" by code_simp
  have d: "?m = (fst ?m, fst (snd ?m), snd (snd ?m))" by simp
  have e: "arr heap0 0 = reference" by (simp add: heap0_def)
  from makePuzzle_only_erases [OF a b d] heap0_carved e show ?thesis by simp
qed


section \<open>The play session\<close>

text \<open>
  The session is the set of global variables of the script: \<open>solution\<close>, \<open>state\<close>,
  \<open>prefilled\<close> (the given mask), \<open>selected\<close> (\<open>None\<close> for \<open>-1\<close>), \<open>mistakes\<close> and
  \<open>history\<close>, whose last element is the top of the stack (\<^verbatim>\<open>push\<close> appends, \<^verbatim>\<open>pop\<close>
  takes the last). Of the page it keeps the \<open>conflict\<close> mark of each of the 81 cells
  (\<open>marks\<close>) and the status line (\<open>status\<close>, one constructor per message). The timer and
  the text of the input fields are left out.
\<close>

datatype message =
  Blank | Generating | GoodLuck | WrongNumber | PuzzleComplete | SelectCellFirst | CellLocked
  | NothingToUndo | UndoDone | NoHints | HintRevealed | SolutionRevealed

record session =
  solution :: "int list"
  state :: "int list"
  prefilled :: "bool list"
  selected :: "nat option"
  mistakes :: nat
  history :: "(nat \<times> int) list"
  marks :: "bool list"
  status :: message

definition initial :: session where
  "initial = \<lparr>solution = replicate 81 0, state = replicate 81 0,
              prefilled = replicate 81 False, selected = None, mistakes = 0, history = [],
              marks = replicate 81 False, status = Blank\<rparr>"


text \<open>
  The event handlers. \<open>inputEvent idx num\<close> is the \<open>input\<close> listener of cell \<open>idx\<close>, \<open>num\<close>
  being the number parsed from the field (0 when it holds no digit); \<open>keydownDelete idx\<close>
  is its \<open>keydown\<close> listener for Backspace and Delete; \<open>numpadClick n\<close> is the click on
  button \<open>n\<close> of the number pad; \<open>windowDigit\<close> and \<open>windowArrow\<close> are the two parts of the
  \<open>keydown\<close> listener of the window. \<open>isSolved\<close> is the test of \<open>checkWin\<close>. In \<open>giveHint\<close>
  the argument \<open>r\<close> stands for the random draw, reduced modulo the number of candidates.
\<close>

definition isSolved :: "session \<Rightarrow> bool" where
  "isSolved s =
     list_all (\<lambda>i. state s ! i \<noteq> 0 \<and> cell (solution s) i = Some (state s ! i))
       [0..<length (state s)]"

definition checkWin :: "session \<Rightarrow> session" where
  "checkWin s = (if isSolved s then s\<lparr>status := PuzzleComplete\<rparr> else s)"

definition render :: "session \<Rightarrow> session" where
  "render s = s\<lparr>marks := updateConflicts (state s)\<rparr>"

definition inputEvent :: "nat \<Rightarrow> int \<Rightarrow> session \<Rightarrow> session" where
  "inputEvent idx num s =
     (if prefilled s ! idx then s
      else (let prev = state s ! idx;
                s1 = (if prev \<noteq> num then s\<lparr>history := history s @ [(idx, prev)]\<rparr> else s);
                s2 = s1\<lparr>state := (state s1)[idx := num]\<rparr>;
                s3 = s2\<lparr>marks := updateConflicts (state s2)\<rparr>;
                s4 = (if num \<noteq> 0 \<and> solution s3 ! idx \<noteq> num
                      then s3\<lparr>mistakes := mistakes s3 + 1, marks := (marks s3)[idx := True],
                              status := WrongNumber\<rparr>
                      else s3\<lparr>marks := (marks s3)[idx := False], status := Blank\<rparr>)
            in checkWin s4))"

definition keydownDelete :: "nat \<Rightarrow> session \<Rightarrow> session" where
  "keydownDelete idx s =
     (if prefilled s ! idx then s
      else (let s1 = s\<lparr>history := history s @ [(idx, state s ! idx)]\<rparr>;
                s2 = s1\<lparr>state := (state s1)[idx := 0]\<rparr>
            in s2\<lparr>marks := updateConflicts (state s2)\<rparr>))"

definition cellClick :: "nat \<Rightarrow> session \<Rightarrow> session" where
  "cellClick i s = s\<lparr>selected := Some i\<rparr>"

definition numpadClick :: "int \<Rightarrow> session \<Rightarrow> session" where
  "numpadClick n s =
     (case selected s of
        None \<Rightarrow> s\<lparr>status := SelectCellFirst\<rparr>
      | Some idx \<Rightarrow>
          if prefilled s ! idx then s\<lparr>status := CellLocked\<rparr>
          else (let prev = state s ! idx;
                    s1 = s\<lparr>history := history s @ [(idx, prev)]\<rparr>;
                    s2 = s1\<lparr>state := (state s1)[idx := n]\<rparr>;
                    s3 = s2\<lparr>marks := updateConflicts (state s2)\<rparr>;
                    s4 = (if solution s3 ! idx \<noteq> n
                          then s3\<lparr>mistakes := mistakes s3 + 1, marks := (marks s3)[idx := True],
                                  status := WrongNumber\<rparr>
                          else s3\<lparr>marks := (marks s3)[idx := False], status := Blank\<rparr>)
                in checkWin s4))"

definition windowDigit :: "int \<Rightarrow> session \<Rightarrow> session" where
  "windowDigit n s =
     (case selected s of
        None \<Rightarrow> s
      | Some idx \<Rightarrow>
          if prefilled s ! idx then s
          else (let s1 = s\<lparr>history := history s @ [(idx, state s ! idx)]\<rparr>;
                    s2 = s1\<lparr>state := (state s1)[idx := n]\<rparr>;
                    s3 = s2\<lparr>marks := updateConflicts (state s2)\<rparr>;
                    s4 = (if solution s3 ! idx \<noteq> state s3 ! idx
                          then s3\<lparr>mistakes := mistakes s3 + 1, marks := (marks s3)[idx := True]\<rparr>
                          else s3)
                in checkWin s4))"

definition windowArrow :: "int \<Rightarrow> session \<Rightarrow> session" where
  "windowArrow d s =
     (case selected s of
        None \<Rightarrow> s
      | Some sel \<Rightarrow>
          (let nx = int sel + d
           in if nx \<ge> 0 \<and> nx < 81 then s\<lparr>selected := Some (nat nx)\<rparr> else s))"

definition undo :: "session \<Rightarrow> session" where
  "undo s =
     (if history s = [] then s\<lparr>status := NothingToUndo\<rparr>
      else (let (idx, prev) = last (history s);
                s1 = s\<lparr>history := butlast (history s)\<rparr>;
                s2 = s1\<lparr>state := (state s1)[idx := prev]\<rparr>
            in (render s2)\<lparr>status := UndoDone\<rparr>))"

definition incorrect :: "session \<Rightarrow> nat list" where
  "incorrect s = filter (\<lambda>i. state s ! i = 0 \<or> state s ! i \<noteq> solution s ! i) [0..<81]"

definition giveHint :: "nat \<Rightarrow> session \<Rightarrow> session" where
  "giveHint r s =
     (if length (incorrect s) = 0 then s\<lparr>status := NoHints\<rparr>
      else (let idx = incorrect s ! (r mod length (incorrect s));
                s1 = s\<lparr>history := history s @ [(idx, state s ! idx)]\<rparr>;
                s2 = s1\<lparr>state := (state s1)[idx := solution s1 ! idx]\<rparr>;
                s3 = s2\<lparr>prefilled := (prefilled s2)[idx := False]\<rparr>
            in (checkWin (render s3))\<lparr>status := HintRevealed\<rparr>))"

definition revealSolution :: "session \<Rightarrow> session" where
  "revealSolution s = (render (s\<lparr>state := solution s\<rparr>))\<lparr>status := SolutionRevealed\<rparr>"

definition newPuzzle :: "(nat \<Rightarrow> nat) \<Rightarrow> int \<Rightarrow> session \<Rightarrow> session option" where
  "newPuzzle rnd removals s =
     (case generateSolved rnd 0 of
        None \<Rightarrow> None
      | Some (solved, k) \<Rightarrow>
          (let h0 = \<lparr>arr = (\<lambda>_. [])(0 := solved), next_ref = 1\<rparr>;
               (solutionRef, h1) = slice 0 h0;
               (puzzle, h2, k') = makePuzzle rnd 0 removals k h1;
               (stateRef, h3) = slice puzzle h2
           in Some (render (s\<lparr>solution := arr h3 solutionRef, state := arr h3 stateRef,
                               prefilled := map (\<lambda>v. v \<noteq> 0) (arr h3 puzzle),
                               mistakes := 0, history := []\<rparr>)\<lparr>status := GoodLuck\<rparr>)))"


text \<open>
  A run of the page is a list of events applied to the globals as they are when the
  script is loaded. The script itself calls \<open>newPuzzle\<close> first, so what the player sees
  are the runs that start with \<open>NewGame\<close>. A well-formed event comes from one of the 81
  cells, from one of the nine buttons or digit keys, or from an arrow key.
\<close>

datatype event =
  Input nat int | KeydownDelete nat | CellClick nat | NumpadClick int | WindowDigit int
  | WindowArrow int | Undo | Hint nat | Reveal | NewGame "nat \<Rightarrow> nat" int

fun step :: "event \<Rightarrow> session \<Rightarrow> session" where
  "step (Input idx num) s = inputEvent idx num s"
| "step (KeydownDelete idx) s = keydownDelete idx s"
| "step (CellClick i) s = cellClick i s"
| "step (NumpadClick n) s = numpadClick n s"
| "step (WindowDigit n) s = windowDigit n s"
| "step (WindowArrow d) s = windowArrow d s"
| "step Undo s = undo s"
| "step (Hint r) s = giveHint r s"
| "step Reveal s = revealSolution s"
| "step (NewGame rnd removals) s =
     (case newPuzzle rnd removals s of None \<Rightarrow> s\<lparr>status := Generating\<rparr> | Some s' \<Rightarrow> s')"

fun wfEvent :: "event \<Rightarrow> bool" where
  "wfEvent (Input idx num) = (idx < 81)"
| "wfEvent (KeydownDelete idx) = (idx < 81)"
| "wfEvent (CellClick i) = (i < 81)"
| "wfEvent (NumpadClick n) = (1 \<le> n \<and> n \<le> 9)"
| "wfEvent (WindowDigit n) = (1 \<le> n \<and> n \<le> 9)"
| "wfEvent (WindowArrow d) = (d = -1 \<or> d = 1 \<or> d = -9 \<or> d = 9)"
| "wfEvent _ = True"

definition run :: "event list \<Rightarrow> session \<Rightarrow> session" where
  "run evs s = fold step evs s"

subsection \<open>What every session satisfies\<close>

text \<open>
  \<open>wfSession\<close>: the three arrays have 81 cells, the selection is a cell, the solution
  is the initial array of zeros or a full grid, every given cell shows its solution, and
  no history entry is about a given cell.
\<close>

definition wfSession :: "session \<Rightarrow> bool" where
  "wfSession s \<longleftrightarrow>
     length (solution s) = 81 \<and> length (state s) = 81 \<and> length (prefilled s) = 81 \<and>
     (case selected s of None \<Rightarrow> True | Some i \<Rightarrow> i < 81) \<and>
     (solution s = replicate 81 0 \<or> complete (solution s)) \<and>
     list_all (\<lambda>i. prefilled s ! i \<longrightarrow> state s ! i = solution s ! i) [0..<81] \<and>
     list_all (\<lambda>(idx, prev). idx < 81 \<and> \<not> prefilled s ! idx) (history s)"

lemma wfSession_iff:
  "wfSession s \<longleftrightarrow>
     length (solution s) = 81 \<and> length (state s) = 81 \<and> length (prefilled s) = 81 \<and>
     (\<forall>i. selected s = Some i \<longrightarrow> i < 81) \<and>
     (solution s = replicate 81 0 \<or> complete (solution s)) \<and>
     (\<forall>i<81. prefilled s ! i \<longrightarrow> state s ! i = solution s ! i) \<and>
     (\<forall>e\<in>set (history s). fst e < 81 \<and> \<not> prefilled s ! fst e)"
  by (auto simp: wfSession_def list_all_iff split: option.splits)

lemma wfSession_status [simp]: "wfSession (s\<lparr>status := m\<rparr>) = wfSession s"
  by (simp add: wfSession_def)

lemma wfSession_marks [simp]: "wfSession (s\<lparr>marks := m\<rparr>) = wfSession s"
  by (simp add: wfSession_def)

lemma wfSession_mistakes [simp]: "wfSession (s\<lparr>mistakes := m\<rparr>) = wfSession s"
  by (simp add: wfSession_def)

lemma wfSession_checkWin [simp]: "wfSession (checkWin s) = wfSession s"
  by (simp add: checkWin_def)

lemma wfSession_render [simp]: "wfSession (render s) = wfSession s"
  by (simp add: render_def)

lemma wfSession_initial: "wfSession initial"
  by (simp add: wfSession_iff initial_def)

text \<open>Writing a cell that is not given, with or without a history entry for it.\<close>

lemma wfSession_edit:
  assumes "wfSession s" "idx < 81" "\<not> prefilled s ! idx"
  shows "wfSession (s\<lparr>state := (state s)[idx := v]\<rparr>)"
    and "wfSession (s\<lparr>history := history s @ [(idx, w)], state := (state s)[idx := v]\<rparr>)"
  using assms by (auto simp: wfSession_iff nth_list_update)

lemma wfSession_inputEvent:
  assumes "wfSession s" "idx < 81"
  shows "wfSession (inputEvent idx num s)"
proof (cases "prefilled s ! idx")
  case True
  with assms show ?thesis by (simp add: inputEvent_def)
next
  case False
  from wfSession_edit [OF assms False, of num] False show ?thesis
    by (auto simp: inputEvent_def Let_def)
qed

lemma wfSession_keydownDelete:
  assumes "wfSession s" "idx < 81"
  shows "wfSession (keydownDelete idx s)"
proof (cases "prefilled s ! idx")
  case True
  with assms show ?thesis by (simp add: keydownDelete_def)
next
  case False
  from wfSession_edit(2) [OF assms False, of 0] False show ?thesis
    by (simp add: keydownDelete_def Let_def)
qed

lemma wfSession_selected: "wfSession s \<Longrightarrow> selected s = Some i \<Longrightarrow> i < 81"
  by (simp add: wfSession_iff)

lemma wfSession_numpadClick:
  assumes "wfSession s"
  shows "wfSession (numpadClick n s)"
proof (cases "selected s")
  case None
  with assms show ?thesis by (simp add: numpadClick_def)
next
  case (Some idx)
  show ?thesis
  proof (cases "prefilled s ! idx")
    case True
    with assms Some show ?thesis by (simp add: numpadClick_def)
  next
    case False
    from wfSession_edit(2) [OF assms wfSession_selected [OF assms Some] False, of n] Some False
    show ?thesis by (simp add: numpadClick_def Let_def)
  qed
qed

lemma wfSession_windowDigit:
  assumes "wfSession s"
  shows "wfSession (windowDigit n s)"
proof (cases "selected s")
  case None
  with assms show ?thesis by (simp add: windowDigit_def)
next
  case (Some idx)
  show ?thesis
  proof (cases "prefilled s ! idx")
    case True
    with assms Some show ?thesis by (simp add: windowDigit_def)
  next
    case False
    from wfSession_edit(2) [OF assms wfSession_selected [OF assms Some] False, of n] Some False
    show ?thesis by (simp add: windowDigit_def Let_def)
  qed
qed

lemma wfSession_select:
  "wfSession s \<Longrightarrow> i < 81 \<Longrightarrow> wfSession (s\<lparr>selected := Some i\<rparr>)"
  by (simp add: wfSession_iff)

lemma wfSession_windowArrow: "wfSession s \<Longrightarrow> wfSession (windowArrow d s)"
  by (auto simp: windowArrow_def Let_def wfSession_select split: option.splits)

lemma wfSession_undo:
  assumes "wfSession s"
  shows "wfSession (undo s)"
proof (cases "history s = []")
  case True
  with assms show ?thesis by (simp add: undo_def)
next
  case False
  obtain idx prev where l: "last (history s) = (idx, prev)" by (cases "last (history s)")
  from False l have "(idx, prev) \<in> set (history s)" by (metis last_in_set)
  with assms have i: "idx < 81" "\<not> prefilled s ! idx" by (auto simp: wfSession_iff)
  have "wfSession (s\<lparr>history := butlast (history s), state := (state s)[idx := prev]\<rparr>)"
    using assms i by (auto simp: wfSession_iff nth_list_update dest: in_set_butlastD)
  with False l show ?thesis by (simp add: undo_def Let_def)
qed

lemma incorrect_nth:
  assumes "incorrect s \<noteq> []"
  shows "incorrect s ! (r mod length (incorrect s)) < 81"
    and "state s ! (incorrect s ! (r mod length (incorrect s))) = 0 \<or>
         state s ! (incorrect s ! (r mod length (incorrect s))) \<noteq>
         solution s ! (incorrect s ! (r mod length (incorrect s)))"
proof -
  from assms have "incorrect s ! (r mod length (incorrect s)) \<in> set (incorrect s)" by simp
  then show "incorrect s ! (r mod length (incorrect s)) < 81"
    and "state s ! (incorrect s ! (r mod length (incorrect s))) = 0 \<or>
         state s ! (incorrect s ! (r mod length (incorrect s))) \<noteq>
         solution s ! (incorrect s ! (r mod length (incorrect s)))"
    unfolding incorrect_def by auto
qed

lemma wfSession_giveHint:
  assumes "wfSession s"
  shows "wfSession (giveHint r s)"
proof (cases "incorrect s = []")
  case True
  with assms show ?thesis by (simp add: giveHint_def)
next
  case False
  let ?idx = "incorrect s ! (r mod length (incorrect s))"
  have i: "?idx < 81" using False by (rule incorrect_nth)
  have "wfSession (s\<lparr>history := history s @ [(?idx, state s ! ?idx)],
          state := (state s)[?idx := solution s ! ?idx],
          prefilled := (prefilled s)[?idx := False]\<rparr>)"
    using assms i by (auto simp: wfSession_iff nth_list_update)
  with False show ?thesis by (simp add: giveHint_def Let_def)
qed

lemma wfSession_revealSolution: "wfSession s \<Longrightarrow> wfSession (revealSolution s)"
  by (simp add: revealSolution_def) (simp add: wfSession_iff)

lemma newPuzzle_value:
  assumes g: "generateSolved rnd 0 = Some (solved, k)"
    and c: "puzzle = carveCells removals (fst (shuffle rnd [0..<81] k)) 0 solved"
  shows "newPuzzle rnd removals s =
       Some (s\<lparr>solution := solved, state := puzzle, prefilled := map (\<lambda>v. v \<noteq> 0) puzzle,
               mistakes := 0, history := [], marks := updateConflicts puzzle,
               status := GoodLuck\<rparr>)"
proof -
  define h0 where "h0 = \<lparr>arr = (\<lambda>_. [])(0 := solved), next_ref = 1\<rparr>"
  define h1 where "h1 = snd (slice 0 h0)"
  obtain p h2 k' where m: "makePuzzle rnd 0 removals k h1 = (p, h2, k')"
    by (cases "makePuzzle rnd 0 removals k h1")
  define h3 where "h3 = snd (slice p h2)"
  have s1: "slice 0 h0 = (1, h1)" by (simp add: slice_def h1_def h0_def)
  have s3: "slice p h2 = (next_ref h2, h3)" by (simp add: slice_def h3_def)
  note r = makePuzzle_result [OF m]
  have n1: "next_ref h1 = 2" by (simp add: h1_def h0_def)
  have p: "p = 2" using r(1) n1 by simp
  have h10: "arr h1 0 = solved" and "arr h1 1 = solved" by (simp_all add: arr_slice h1_def h0_def)
  with r(4) [of 1] n1 have sol: "arr h2 1 = solved" by simp
  from makePuzzle_value [OF m] h10 c have pz: "arr h2 p = puzzle" by simp
  have a3: "arr h3 1 = solved" "arr h3 (next_ref h2) = puzzle" "arr h3 p = puzzle"
    using r(2) sol p n1 pz by (simp_all add: arr_slice h3_def)
  show ?thesis
    unfolding newPuzzle_def g Let_def option.case prod.case h0_def [symmetric] s1 m s3 a3
    by (simp add: render_def)
qed

lemma newPuzzle_result:
  "\<exists>solved puzzle.
     validFull solved \<and> erases solved puzzle \<and>
     newPuzzle rnd removals s =
       Some (s\<lparr>solution := solved, state := puzzle, prefilled := map (\<lambda>v. v \<noteq> 0) puzzle,
               mistakes := 0, history := [], marks := updateConflicts puzzle,
               status := GoodLuck\<rparr>)"
proof -
  from generateSolved_validFull [of rnd 0]
  obtain solved k where g: "generateSolved rnd 0 = Some (solved, k)" and v: "validFull solved"
    by blast
  have "erases solved (carveCells removals (fst (shuffle rnd [0..<81] k)) 0 solved)"
    by (intro carveCells_erases erases_refl)
  with v newPuzzle_value [OF g refl] show ?thesis by blast
qed

lemma wfSession_newPuzzle:
  assumes "wfSession s" "newPuzzle rnd removals s = Some s'"
  shows "wfSession s'"
proof -
  from newPuzzle_result [of rnd removals s] assms(2)
  obtain solved puzzle where v: "validFull solved" and e: "erases solved puzzle"
    and s': "s' = s\<lparr>solution := solved, state := puzzle, prefilled := map (\<lambda>v. v \<noteq> 0) puzzle,
               mistakes := 0, history := [], marks := updateConflicts puzzle,
               status := GoodLuck\<rparr>"
    by auto
  from v have len: "length solved = 81" and c: "complete solved"
    by (simp_all add: validFull_def validFull_complete)
  from e len have pl: "length puzzle = 81"
    and cells: "\<And>i. i < 81 \<Longrightarrow> puzzle ! i = solved ! i \<or> puzzle ! i = 0"
    by (simp_all add: erases_iff)
  from assms(1) len c pl cells show ?thesis
    unfolding s' by (auto simp: wfSession_iff)
qed

lemma wfSession_step:
  assumes "wfSession s" "wfEvent e"
  shows "wfSession (step e s)"
proof (cases e)
  case (NewGame rnd removals)
  with assms wfSession_newPuzzle [of s rnd removals] show ?thesis
    by (simp split: option.split)
qed (use assms in \<open>simp_all add: wfSession_inputEvent wfSession_keydownDelete wfSession_numpadClick
      wfSession_windowDigit wfSession_windowArrow wfSession_undo wfSession_giveHint
      wfSession_revealSolution cellClick_def wfSession_select\<close>)

lemma wfSession_run:
  "wfSession s \<Longrightarrow> list_all wfEvent evs \<Longrightarrow> wfSession (run evs s)"
  unfolding run_def by (induction evs arbitrary: s) (simp_all add: wfSession_step)

lemma locked_cell:
  assumes "prefilled s ! i"
  shows "inputEvent i v s = s" and "keydownDelete i s = s"
    and "selected s = Some i \<Longrightarrow> state (numpadClick n s) = state s"
    and "selected s = Some i \<Longrightarrow> windowDigit n s = s"
  using assms by (simp_all add: inputEvent_def keydownDelete_def numpadClick_def windowDigit_def)


lemma undo_keeps: "mistakes (undo s) = mistakes s \<and> prefilled (undo s) = prefilled s"
  by (simp add: undo_def render_def Let_def split: prod.split)

lemma undo_empty: "history s = [] \<Longrightarrow> undo s = s\<lparr>status := NothingToUndo\<rparr>"
  by (simp add: undo_def)

lemma undo_pushed:
  assumes "history s' = history s @ [(i, state s ! i)]" "state s' = (state s)[i := v]"
  shows "state (undo s') = state s" and "history (undo s') = history s"
  using assms by (simp_all add: undo_def render_def Let_def list_update_id)

lemma inputEvent_changed:
  assumes "\<not> prefilled s ! i" "v \<noteq> state s ! i"
  shows "history (inputEvent i v s) = history s @ [(i, state s ! i)]"
    and "state (inputEvent i v s) = (state s)[i := v]"
  using assms by (auto simp: inputEvent_def checkWin_def Let_def)

lemma inputEvent_unchanged:
  assumes "\<not> prefilled s ! i" "v = state s ! i"
  shows "history (inputEvent i v s) = history s"
    and "state (inputEvent i v s) = state s"
  using assms by (auto simp: inputEvent_def checkWin_def Let_def list_update_id)

lemma keydownDelete_pushes:
  assumes "\<not> prefilled s ! i"
  shows "history (keydownDelete i s) = history s @ [(i, state s ! i)]"
    and "state (keydownDelete i s) = (state s)[i := 0]"
  using assms by (simp_all add: keydownDelete_def Let_def)

lemma numpadClick_pushes:
  assumes "selected s = Some i" "\<not> prefilled s ! i"
  shows "history (numpadClick n s) = history s @ [(i, state s ! i)]"
    and "state (numpadClick n s) = (state s)[i := n]"
  using assms by (auto simp: numpadClick_def checkWin_def Let_def)

lemma windowDigit_pushes:
  assumes "selected s = Some i" "\<not> prefilled s ! i"
  shows "history (windowDigit n s) = history s @ [(i, state s ! i)]"
    and "state (windowDigit n s) = (state s)[i := n]"
  using assms by (auto simp: windowDigit_def checkWin_def Let_def)

lemma mistakes_inputEvent: "mistakes s \<le> mistakes (inputEvent i v s)"
  by (auto simp: inputEvent_def checkWin_def Let_def)

lemma incorrect_iff: "i \<in> set (incorrect s) \<longleftrightarrow> i < 81 \<and> (state s ! i = 0 \<or> state s ! i \<noteq> solution s ! i)"
  by (auto simp: incorrect_def)

lemma giveHint_some:
  assumes "incorrect s \<noteq> []"
  shows "history (giveHint r s) =
           history s @ [(incorrect s ! (r mod length (incorrect s)),
                         state s ! (incorrect s ! (r mod length (incorrect s))))]"
    and "state (giveHint r s) =
           (state s)[incorrect s ! (r mod length (incorrect s)) :=
                       solution s ! (incorrect s ! (r mod length (incorrect s)))]"
    and "prefilled (giveHint r s) = (prefilled s)[incorrect s ! (r mod length (incorrect s)) := False]"
    and "solution (giveHint r s) = solution s"
  using assms by (simp_all add: giveHint_def checkWin_def render_def Let_def)

lemma giveHint_none: "incorrect s = [] \<Longrightarrow> giveHint r s = s\<lparr>status := NoHints\<rparr>"
  by (simp add: giveHint_def)

lemma isSolved_iff:
  "isSolved s \<longleftrightarrow> (\<forall>i<length (state s). state s ! i \<noteq> 0 \<and> cell (solution s) i = Some (state s ! i))"
  by (auto simp: isSolved_def list_all_iff)

lemma last_hint_solves:
  assumes wf: "wfSession s" and i: "i < 81" and e: "state s ! i = 0"
    and rest: "\<forall>j<81. j \<noteq> i \<longrightarrow> state s ! j \<noteq> 0 \<and> state s ! j = solution s ! j"
  shows "state (giveHint r s) ! i = solution s ! i \<and> isSolved (giveHint r s)"
proof -
  let ?idx = "incorrect s ! (r mod length (incorrect s))"
  from wf have len: "length (state s) = 81" "length (solution s) = 81"
    and sol: "solution s = replicate 81 0 \<or> complete (solution s)"
    by (simp_all add: wfSession_iff)
  from i e have "i \<in> set (incorrect s)" by (simp add: incorrect_iff)
  then have ne: "incorrect s \<noteq> []" by auto
  then have "?idx \<in> set (incorrect s)" by simp
  with rest have idx: "?idx = i" unfolding incorrect_iff by blast
  have "(if i = 0 then 1 else 0) < (81::nat) \<and> (if i = 0 then 1 else 0) \<noteq> i" by simp
  then obtain j where j: "j < 81" "j \<noteq> i" by blast
  with rest have "solution s ! j \<noteq> 0" by auto
  with j sol have "complete (solution s)" by auto
  with i len have si: "solution s ! i \<noteq> 0" by (auto simp: complete_def list_all_iff cell_def)
  note h = giveHint_some [OF ne, of r, unfolded idx]
  from h(2) i len have here: "state (giveHint r s) ! i = solution s ! i" by simp
  have "state (giveHint r s) ! k \<noteq> 0 \<and> cell (solution (giveHint r s)) k = Some (state (giveHint r s) ! k)"
    if "k < 81" for k
  proof (cases "k = i")
    case True
    with si len i show ?thesis unfolding h(2) h(4) by (simp add: cell_def)
  next
    case False
    with rest that have "state s ! k \<noteq> 0 \<and> state s ! k = solution s ! k" by blast
    with False len that show ?thesis unfolding h(2) h(4) by (simp add: cell_def)
  qed
  with here len h(2) show ?thesis by (simp add: isSolved_iff)
qed

section \<open>A sample game\<close>

text \<open>
  The game that \<open>newPuzzle\<close> sets up with two removals when every random draw is 0:
  \<open>generated0\<close> is the solved grid, \<open>session0\<close> the session, with cells 1 and 2 empty.
\<close>

definition generated0 :: grid where
  "generated0 =
     [2,3,4,5,6,7,8,9,1, 5,6,7,8,9,1,2,3,4, 8,9,1,2,3,4,5,6,7,
      3,2,5,4,7,6,9,1,8, 4,7,6,9,1,8,3,2,5, 9,1,8,3,2,5,4,7,6,
      6,4,2,7,5,3,1,8,9, 7,5,3,1,8,9,6,4,2, 1,8,9,6,4,2,7,5,3]"

definition session0 :: session where
  "session0 =
     \<lparr>solution = generated0, state = generated0[1 := 0, 2 := 0],
      prefilled = map (\<lambda>v. v \<noteq> 0) (generated0[1 := 0, 2 := 0]),
      selected = None, mistakes = 0, history = [], marks = replicate 81 False,
      status = GoodLuck\<rparr>"


lemma generated0_eval: "generateSolved (\<lambda>_. 0) 0 = Some (generated0, 3128)"
  by code_simp

lemma carved0_eval:
  "carveCells 2 (fst (shuffle (\<lambda>_. 0) [0..<81] 3128)) 0 generated0 = generated0[1 := 0, 2 := 0]"
  by code_simp

lemma marks0_eval: "updateConflicts (generated0[1 := 0, 2 := 0]) = replicate 81 False"
  by code_simp

lemma session0_new: "newPuzzle (\<lambda>_. 0) 2 initial = Some session0"
  unfolding newPuzzle_value [OF generated0_eval carved0_eval [symmetric]] marks0_eval
  by (simp add: initial_def session0_def)

lemma session0_run: "run [NewGame (\<lambda>_. 0) 2] initial = session0"
  by (simp add: run_def session0_new)

lemma wfSession_session0: "wfSession session0"
  using wfSession_newPuzzle [OF wfSession_initial session0_new] .

lemma inputEvent_frame:
  "prefilled (inputEvent i v s) = prefilled s" "solution (inputEvent i v s) = solution s"
  "selected (inputEvent i v s) = selected s"
  by (auto simp: inputEvent_def checkWin_def Let_def)

lemma numpadClick_frame:
  "prefilled (numpadClick n s) = prefilled s" "solution (numpadClick n s) = solution s"
  "selected (numpadClick n s) = selected s"
  by (auto simp: numpadClick_def checkWin_def Let_def split: option.splits)

lemma undo_top:
  assumes "history s = hs @ [(i, p)]"
  shows "state (undo s) = (state s)[i := p]" and "history (undo s) = hs"
  using assms by (simp_all add: undo_def render_def Let_def)

lemma session0_cells:
  "\<not> prefilled session0 ! 1" "\<not> prefilled session0 ! 2" "prefilled session0 ! 0"
  "state session0 ! 1 = 0" "state session0 ! 2 = 0" "history session0 = []"
  "selected session0 = None" "length (state session0) = 81"
  by code_simp+

lemma session0_fields:
  "solution session0 = generated0" "state session0 = generated0[1 := 0, 2 := 0]"
  by (simp_all add: session0_def)

theorem generateSolved_succeeds_witness:
  "generateSolved (\<lambda>_. 0) 0 = Some (generated0, 3128) \<and> complete generated0 \<and>
   solvedGrid generated0"
  using generateSolved_succeeds [of "\<lambda>_. 0" 0] generated0_eval by simp


section \<open>Claims about the play session\<close>

text \<open>
  Claim C5. In every session reached from the loaded page by well-formed events (a
  new game, typed input, Backspace and Delete, number pad, digit and arrow keys, undo,
  hint, reveal), every index marked as given holds the value of the solution, and an edit
  of a given index, by any of the editing handlers, leaves its value as it is.
\<close>

theorem given_cells_locked:
  "list_all wfEvent evs \<Longrightarrow> s = run evs initial \<Longrightarrow> i < 81 \<Longrightarrow> prefilled s ! i \<Longrightarrow>
     state s ! i = solution s ! i \<and>
     state (inputEvent i v s) ! i = state s ! i \<and>
     state (keydownDelete i s) ! i = state s ! i \<and>
     (selected s = Some i \<longrightarrow> state (numpadClick n s) ! i = state s ! i \<and>
                               state (windowDigit n s) ! i = state s ! i)"
proof -
  assume evs: "list_all wfEvent evs" and s: "s = run evs initial" and i: "i < 81"
    and p: "prefilled s ! i"
  from wfSession_run [OF wfSession_initial evs] s have "wfSession s" by simp
  with i p have "state s ! i = solution s ! i" by (simp add: wfSession_iff)
  with locked_cell [OF p] show ?thesis by simp
qed

theorem given_cells_locked_witness:
  "prefilled session0 ! 0 \<and> state session0 ! 0 = solution session0 ! 0 \<and>
   state (inputEvent 0 7 session0) ! 0 = state session0 ! 0 \<and>
   state (keydownDelete 0 session0) ! 0 = state session0 ! 0"
proof -
  have e: "list_all wfEvent [NewGame (\<lambda>_. 0) 2]" by simp
  have i: "(0::nat) < 81" by simp
  note p = session0_cells(3)
  from given_cells_locked [OF e session0_run [symmetric] i p, of 7] p show ?thesis by simp
qed

text \<open>
  Claim C6 fails for two of the three editing handlers. The listener of the \<open>input\<close>
  event compares before it pushes; the click on the number pad and the Backspace/Delete
  listener push without comparing. In the sample game, with cell 1 selected: button 3
  writes 3, and button 3 again leaves the state as it is and pushes the entry \<open>(1, 3)\<close>;
  Backspace on the empty cell 1 leaves the state as it is and pushes \<open>(1, 0)\<close>; the typed
  input of the 3 already present pushes nothing.
\<close>

theorem unchanged_edits_pushed:
  "state (numpadClick 3 (cellClick 1 session0)) ! 1 = 3 \<and>
   state (numpadClick 3 (numpadClick 3 (cellClick 1 session0))) =
     state (numpadClick 3 (cellClick 1 session0)) \<and>
   history (numpadClick 3 (numpadClick 3 (cellClick 1 session0))) = [(1, 0), (1, 3)] \<and>
   state session0 ! 1 = 0 \<and>
   state (keydownDelete 1 session0) = state session0 \<and>
   history (keydownDelete 1 session0) = [(1, 0)] \<and>
   history (inputEvent 1 3 (numpadClick 3 (cellClick 1 session0))) = [(1, 0)]"
proof -
  let ?c = "cellClick 1 session0" and ?s1 = "numpadClick 3 (cellClick 1 session0)"
  note len = session0_cells(8)
  have c: "selected ?c = Some 1" "\<not> prefilled ?c ! 1" "state ?c = state session0"
    "history ?c = []"
    using session0_cells(1,6) by (simp_all add: cellClick_def)
  note one = numpadClick_pushes [OF c(1,2), of 3]
  have s1: "selected ?s1 = Some 1" "\<not> prefilled ?s1 ! 1"
    using c by (simp_all add: numpadClick_frame)
  note two = numpadClick_pushes [OF s1, of 3]
  from one(2) c(3) len have v1: "state ?s1 ! 1 = 3" by simp
  have h1: "history ?s1 = [(1, 0)]" using one(1) c session0_cells(4) by simp
  have "state (numpadClick 3 ?s1) = state ?s1" using two(2) v1 by (metis list_update_id)
  moreover have "history (numpadClick 3 ?s1) = [(1, 0), (1, 3)]" using two(1) h1 v1 by simp
  moreover have "state (keydownDelete 1 session0) = state session0"
    using keydownDelete_pushes(2) [OF session0_cells(1)] session0_cells(4)
    by (metis list_update_id)
  moreover have "history (keydownDelete 1 session0) = [(1, 0)]"
    using keydownDelete_pushes(1) [OF session0_cells(1)] session0_cells(4,6) by simp
  moreover have "history (inputEvent 1 3 ?s1) = [(1, 0)]"
    using inputEvent_unchanged(1) [OF s1(2) v1 [symmetric]] h1 by simp
  ultimately show ?thesis using v1 session0_cells(4) by simp
qed

text \<open>
  Claim C7, as the code has it. For a cell that is not given, an edit that changes its
  value (a typed input, a number pad or digit key entry of a value other than the one
  present, Backspace or Delete on a cell that is not empty) followed at once by \<open>undo\<close>
  gives back the state before the edit (for the typed input the history too). \<open>undo\<close>
  changes neither the mistake counter, which never decreases, nor the given mask. On an
  empty history \<open>undo\<close> changes the status line only, to "Nothing to undo".
\<close>

theorem edit_then_undo:
  "wfSession s \<Longrightarrow> i < 81 \<Longrightarrow> \<not> prefilled s ! i \<Longrightarrow>
     (v \<noteq> state s ! i \<longrightarrow>
        state (undo (inputEvent i v s)) = state s \<and>
        history (undo (inputEvent i v s)) = history s \<and>
        (selected s = Some i \<longrightarrow>
           state (undo (numpadClick v s)) = state s \<and>
           state (undo (windowDigit v s)) = state s)) \<and>
     (state s ! i \<noteq> 0 \<longrightarrow> state (undo (keydownDelete i s)) = state s) \<and>
     mistakes (undo (inputEvent i v s)) = mistakes (inputEvent i v s) \<and>
     mistakes s \<le> mistakes (undo (inputEvent i v s)) \<and>
     prefilled (undo (inputEvent i v s)) = prefilled (inputEvent i v s) \<and>
     (history s = [] \<longrightarrow> undo s = s\<lparr>status := NothingToUndo\<rparr>)"
proof -
  assume np: "\<not> prefilled s ! i"
  have "state (undo (inputEvent i v s)) = state s \<and>
        history (undo (inputEvent i v s)) = history s" if "v \<noteq> state s ! i"
    using undo_pushed [OF inputEvent_changed [OF np that]] by simp
  moreover have "state (undo (keydownDelete i s)) = state s"
    using undo_pushed(1) [OF keydownDelete_pushes [OF np]] .
  moreover have "state (undo (numpadClick v s)) = state s \<and>
                 state (undo (windowDigit v s)) = state s" if "selected s = Some i"
    using undo_pushed(1) [OF numpadClick_pushes [OF that np]]
      undo_pushed(1) [OF windowDigit_pushes [OF that np]] by simp
  ultimately show ?thesis
    using undo_keeps [of "inputEvent i v s"] mistakes_inputEvent [of s i v] undo_empty [of s]
    by simp
qed

theorem edit_then_undo_witness:
  "state (undo (inputEvent 1 7 session0)) = state session0 \<and>
   history (undo (inputEvent 1 7 session0)) = history session0 \<and>
   mistakes (undo (inputEvent 1 7 session0)) = mistakes (inputEvent 1 7 session0) \<and>
   undo session0 = session0\<lparr>status := NothingToUndo\<rparr>"
proof -
  have i: "(1::nat) < 81" by simp
  have v: "7 \<noteq> state session0 ! 1" using session0_cells(4) by simp
  from edit_then_undo [OF wfSession_session0 i session0_cells(1), of 7] v session0_cells(6)
  show ?thesis by simp
qed

text \<open>
  The claim as the specification words it fails when a typed input writes the value
  already present: nothing is pushed, and \<open>undo\<close> pops the entry of the edit before. In
  the sample game, 7 is typed into cell 1 twice; the cell holds 7 before the second
  input and 0 after the \<open>undo\<close> that follows it.
\<close>

theorem undo_after_rewrite_counterexample:
  "\<not> prefilled (inputEvent 1 7 session0) ! 1 \<and>
   state (inputEvent 1 7 session0) ! 1 = 7 \<and>
   state (undo (inputEvent 1 7 (inputEvent 1 7 session0))) ! 1 = 0"
proof -
  let ?s1 = "inputEvent 1 7 session0"
  have v: "7 \<noteq> state session0 ! 1" using session0_cells(4) by simp
  note first = inputEvent_changed [OF session0_cells(1) v]
  have np: "\<not> prefilled ?s1 ! 1" using session0_cells(1) by (simp add: inputEvent_frame)
  note len = session0_cells(8)
  from first(2) len have now: "state ?s1 ! 1 = 7" by simp
  note again = inputEvent_unchanged [OF np now [symmetric]]
  from again(1) first(1) session0_cells(4,6)
  have "history (inputEvent 1 7 ?s1) = [] @ [(1, 0)]" by simp
  from undo_top(1) [OF this] again(2) first(2) len
  have "state (undo (inputEvent 1 7 ?s1)) ! 1 = 0" by simp
  with np now show ?thesis by simp
qed

text \<open>
  Claim C9. In every well-formed session: the hint has a candidate exactly when some
  cell is empty or differs from the solution; then it picks such an index, pushes the
  entry of its old value, writes the solution's value and removes the index from the
  given mask; without a candidate it changes the status line only. When exactly one
  cell is empty and all others are correct, the hint fills it and \<open>isSolved\<close> holds.
\<close>

theorem hint_reveals:
  "wfSession s \<Longrightarrow>
     (incorrect s \<noteq> [] \<longleftrightarrow> (\<exists>i<81. state s ! i = 0 \<or> state s ! i \<noteq> solution s ! i)) \<and>
     (incorrect s \<noteq> [] \<longrightarrow>
        (let idx = incorrect s ! (r mod length (incorrect s)); s' = giveHint r s
         in idx < 81 \<and> (state s ! idx = 0 \<or> state s ! idx \<noteq> solution s ! idx) \<and>
            history s' = history s @ [(idx, state s ! idx)] \<and>
            state s' = (state s)[idx := solution s ! idx] \<and>
            prefilled s' = (prefilled s)[idx := False] \<and> \<not> prefilled s' ! idx)) \<and>
     (incorrect s = [] \<longrightarrow> giveHint r s = s\<lparr>status := NoHints\<rparr>) \<and>
     (\<forall>i<81. state s ! i = 0 \<and>
             (\<forall>j<81. j \<noteq> i \<longrightarrow> state s ! j \<noteq> 0 \<and> state s ! j = solution s ! j) \<longrightarrow>
             state (giveHint r s) ! i = solution s ! i \<and> isSolved (giveHint r s))"
proof (intro conjI impI allI)
  assume wf: "wfSession s"
  show "incorrect s \<noteq> [] \<longleftrightarrow> (\<exists>i<81. state s ! i = 0 \<or> state s ! i \<noteq> solution s ! i)"
    using incorrect_iff [of _ s] by (metis all_not_in_conv set_empty)
  show "giveHint r s = s\<lparr>status := NoHints\<rparr>" if "incorrect s = []"
    using that by (rule giveHint_none)
  show "let idx = incorrect s ! (r mod length (incorrect s)); s' = giveHint r s
         in idx < 81 \<and> (state s ! idx = 0 \<or> state s ! idx \<noteq> solution s ! idx) \<and>
            history s' = history s @ [(idx, state s ! idx)] \<and>
            state s' = (state s)[idx := solution s ! idx] \<and>
            prefilled s' = (prefilled s)[idx := False] \<and> \<not> prefilled s' ! idx"
    if ne: "incorrect s \<noteq> []"
  proof -
    from wf have "length (prefilled s) = 81" by (simp add: wfSession_iff)
    with incorrect_nth [OF ne, of r] giveHint_some [OF ne, of r] show ?thesis
      by (simp add: Let_def)
  qed
  fix i
  assume i: "i < 81" and h: "state s ! i = 0 \<and>
             (\<forall>j<81. j \<noteq> i \<longrightarrow> state s ! j \<noteq> 0 \<and> state s ! j = solution s ! j)"
  from h have e: "state s ! i = 0"
    and rest: "\<forall>j<81. j \<noteq> i \<longrightarrow> state s ! j \<noteq> 0 \<and> state s ! j = solution s ! j"
    by blast+
  from last_hint_solves [OF wf i e rest, of r]
  show "state (giveHint r s) ! i = solution s ! i" and "isSolved (giveHint r s)" by blast+
qed

theorem hint_reveals_witness:
  "state (giveHint 5 (inputEvent 1 3 session0)) ! 2 = solution (inputEvent 1 3 session0) ! 2 \<and>
   isSolved (giveHint 5 (inputEvent 1 3 session0))"
proof -
  let ?s = "inputEvent 1 3 session0"
  have wf: "wfSession ?s" using wfSession_session0 by (simp add: wfSession_inputEvent)
  have i: "(2::nat) < 81" by simp
  have v: "3 \<noteq> state session0 ! 1" using session0_cells(4) by simp
  have st: "state ?s = generated0[1 := 0, 2 := 0, 1 := 3]"
    using inputEvent_changed(2) [OF session0_cells(1) v] by (simp add: session0_fields)
  have so: "solution ?s = generated0" by (simp add: inputEvent_frame session0_fields)
  have "list_all (\<lambda>j. j \<noteq> 2 \<longrightarrow> generated0[1 := 0, 2 := 0, 1 := 3] ! j \<noteq> 0 \<and>
                     generated0[1 := 0, 2 := 0, 1 := 3] ! j = generated0 ! j) [0..<81]"
    by code_simp
  then have "\<forall>j<81. j \<noteq> 2 \<longrightarrow> generated0[1 := 0, 2 := 0, 1 := 3] ! j \<noteq> 0 \<and>
                     generated0[1 := 0, 2 := 0, 1 := 3] ! j = generated0 ! j"
    by (auto simp: list_all_iff)
  then have rest: "\<forall>j<81. j \<noteq> 2 \<longrightarrow> state ?s ! j \<noteq> 0 \<and> state ?s ! j = solution ?s ! j"
    unfolding st so .
  have e: "state ?s ! 2 = 0" unfolding st by code_simp
  from hint_reveals [OF wf, of 5] i e rest show ?thesis by blast
qed

end
